theory Spec2Isabelle
  imports Main "HOL-Library.Word" "HOL-Library.Signed_Division" "HOL-Library.Monad_Syntax"
begin

unbundle bit_operations_syntax

section \<open>Data model of fibdrv.c\<close>

text \<open>
  A \<open>char\<close> is an 8-bit word. Where the C code does arithmetic on a \<open>char\<close> it is first
  promoted to \<open>int\<close>; \<open>char\<close> is signed on the targets the module is built for, so the
  promotion is \<open>sint\<close>. Every digit character lies below 128, where the signedness of
  \<open>char\<close> plays no role.

  A character buffer is the list of its bytes; the length of the list is the capacity of
  the object. Reading or writing outside the object is undefined behaviour in C: the
  model returns \<open>None\<close> there, and \<open>Some\<close> result means every access stayed in bounds.
\<close>

type_synonym byte = "8 word"

text \<open>\<open>struct strbuf { char fib[128]; }\<close>: one table slot.\<close>

type_synonym strbuf = "byte list"

definition STRBUF_SIZE :: nat where
  "STRBUF_SIZE = 128"

definition MAX_LENGTH :: "64 word" where
  "MAX_LENGTH = 500"

definition load :: "byte list \<Rightarrow> nat \<Rightarrow> byte option" where
  "load buf i = (if i < length buf then Some (buf ! i) else None)"

definition store :: "byte list \<Rightarrow> nat \<Rightarrow> byte \<Rightarrow> byte list option" where
  "store buf i c = (if i < length buf then Some (buf[i := c]) else None)"

text \<open>\<open>strlen\<close>: the index of the first NUL byte; running off the object is a fault.\<close>

definition strlen :: "byte list \<Rightarrow> nat option" where
  "strlen s = (let n = length (takeWhile (\<lambda>c. c \<noteq> 0) s)
               in if n < length s then Some n else None)"

text \<open>
  \<open>strncpy(dst, src, n)\<close> for a source literal given without its terminator: the first
  \<open>n\<close> bytes of the destination become the source followed by NUL padding.
\<close>

definition strncpy :: "byte list \<Rightarrow> byte list \<Rightarrow> nat \<Rightarrow> byte list option" where
  "strncpy dst src n =
     (if n \<le> length dst then Some (take n (src @ replicate n 0) @ drop n dst) else None)"

section \<open>The fast-doubling scalar engine\<close>

text \<open>\<open>__builtin_clzll\<close>: the number of leading zero bits of a 64-bit value.\<close>

fun clz_from :: "nat \<Rightarrow> 64 word \<Rightarrow> nat" where
  "clz_from 0 w = 0"
| "clz_from (Suc n) w = (if bit w n then 0 else Suc (clz_from n w))"

definition clzll :: "64 word \<Rightarrow> nat" where
  "clzll w = clz_from 64 w"

text \<open>
  The \<open>for (; counter; k <<= 1, counter--)\<close> loop of \<open>fib_sequence\<close>, on 64-bit words:
  all of \<open>+\<close>, \<open>-\<close>, \<open>*\<close> and the shift wrap around.
\<close>

fun fib_doubling :: "nat \<Rightarrow> 64 word \<Rightarrow> 64 word \<Rightarrow> 64 word \<Rightarrow> 64 word" where
  "fib_doubling 0 k a b = a"
| "fib_doubling (Suc counter) k a b =
     (let t1 = a * (2 * b - a);
          t2 = b * b + a * a
      in if k AND push_bit 63 1 \<noteq> 0
         then fib_doubling counter (push_bit 1 k) t2 (t1 + t2)
         else fib_doubling counter (push_bit 1 k) t1 t2)"

definition fib_sequence :: "64 word \<Rightarrow> 64 word" where
  "fib_sequence k =
     (if k <s 2 then k
      else let len_zero = clzll k;
               counter = 64 - len_zero
           in fib_doubling counter (push_bit len_zero k) 0 1)"

section \<open>The big-decimal adder\<close>

text \<open>
  The loops of \<open>add_string\<close> that add a digit of each operand
  (\<open>for (i = 0; i < y_size; i++)\<close>) and that run through the rest of the longer operand
  (\<open>for (i = y_size; i < x_size; i++)\<close>). \<open>sum % 10\<close> and \<open>sum / 10\<close> truncate towards zero.
\<close>

function add_both ::
  "byte list \<Rightarrow> byte list \<Rightarrow> byte list \<Rightarrow> nat \<Rightarrow> nat \<Rightarrow> int \<Rightarrow> (byte list \<times> int) option" where
  "add_both x y nxt i n carry =
     (if i < n then
        (case load x i of None \<Rightarrow> None | Some xi \<Rightarrow>
          (case load y i of None \<Rightarrow> None | Some yi \<Rightarrow>
            (let sm = (sint xi - 48) + (sint yi - 48) + carry in
              (case store nxt i (word_of_int (48 + sm smod 10)) of None \<Rightarrow> None
               | Some nxt' \<Rightarrow> add_both x y nxt' (Suc i) n (sm sdiv 10)))))
      else Some (nxt, carry))"
  by pat_completeness auto
termination
  by (relation "measure (\<lambda>(x, y, nxt, i, n, carry). n - i)") auto

declare add_both.simps [simp del]

function add_rest ::
  "byte list \<Rightarrow> byte list \<Rightarrow> nat \<Rightarrow> nat \<Rightarrow> int \<Rightarrow> (byte list \<times> int) option" where
  "add_rest x nxt i n carry =
     (if i < n then
        (case load x i of None \<Rightarrow> None | Some xi \<Rightarrow>
          (let sm = (sint xi - 48) + carry in
            (case store nxt i (word_of_int (48 + sm smod 10)) of None \<Rightarrow> None
             | Some nxt' \<Rightarrow> add_rest x nxt' (Suc i) n (sm sdiv 10))))
      else Some (nxt, carry))"
  by pat_completeness auto
termination
  by (relation "measure (\<lambda>(x, nxt, i, n, carry). n - i)") auto

declare add_rest.simps [simp del]

text \<open>
  \<open>add_string(x, y, next)\<close>: the three buffers are distinct objects; the result is the
  new content of \<open>next\<close>. After the loops \<open>i\<close> is the larger of the two lengths. The
  terminator goes to \<open>next[++i]\<close>, one past \<open>next[i]\<close>, which is written only when a
  carry is left.
\<close>

definition add_string :: "byte list \<Rightarrow> byte list \<Rightarrow> byte list \<Rightarrow> byte list option" where
  "add_string x y nxt =
     do {
       x_size \<leftarrow> strlen x;
       y_size \<leftarrow> strlen y;
       (nxt1, carry) \<leftarrow>
         (if x_size \<ge> y_size then
            do { (n1, c1) \<leftarrow> add_both x y nxt 0 y_size 0;
                 add_rest x n1 y_size x_size c1 }
          else
            do { (n1, c1) \<leftarrow> add_both x y nxt 0 x_size 0;
                 add_rest y n1 x_size y_size c1 });
       let i = max x_size y_size;
       nxt2 \<leftarrow> (if carry \<noteq> 0 then store nxt1 i 49 else Some nxt1);
       store nxt2 (Suc i) 0
     }"

section \<open>The output formatter\<close>

text \<open>
  \<open>reverse_string(str, size)\<close> swaps \<open>str[i]\<close> and \<open>str[size - i]\<close> by three exclusive-ors
  while \<open>i < size - i\<close>. The comparison and the subtraction are in \<open>size_t\<close>; \<open>i\<close> is an
  \<open>int\<close> that counts up from 0 and stays far below its limit on every buffer that fits
  the indices, so it is a natural number here.
\<close>

function reverse_loop :: "byte list \<Rightarrow> 64 word \<Rightarrow> nat \<Rightarrow> byte list option" where
  "reverse_loop str sz i =
     (if word_of_nat i < sz - word_of_nat i then
        (let j = unat (sz - word_of_nat i) in
         if i < length str \<and> j < length str then
           (let s1 = str[i := str ! i XOR str ! j];
                s2 = s1[j := s1 ! i XOR s1 ! j];
                s3 = s2[i := s2 ! i XOR s2 ! j]
            in reverse_loop s3 sz (Suc i))
         else None)
      else Some str)"
  by pat_completeness auto
termination
  by (relation "measure (\<lambda>(str, sz, i). length str - i)") auto

declare reverse_loop.simps [simp del]

definition reverse_string :: "byte list \<Rightarrow> 64 word \<Rightarrow> byte list option" where
  "reverse_string str sz = reverse_loop str sz 0"

section \<open>The Fibonacci table builder\<close>

text \<open>
  \<open>kmalloc(sizeof(struct strbuf) * n, GFP_KERNEL)\<close>, taken to succeed: \<open>n\<close> slots of 128
  bytes whose content is whatever the memory held before (\<open>prior\<close>, by byte offset).
\<close>

definition kmalloc_strbufs :: "nat \<Rightarrow> (nat \<Rightarrow> byte) \<Rightarrow> strbuf list" where
  "kmalloc_strbufs n prior =
     map (\<lambda>i. map (\<lambda>j. prior (i * STRBUF_SIZE + j)) [0..<STRBUF_SIZE]) [0..<n]"

text \<open>An update of \<open>res[i].fib\<close>; a slot outside the allocation is a fault.\<close>

definition on_slot ::
  "strbuf list \<Rightarrow> nat \<Rightarrow> (strbuf \<Rightarrow> strbuf option) \<Rightarrow> strbuf list option" where
  "on_slot res i f =
     (if i < length res then
        (case f (res ! i) of None \<Rightarrow> None | Some s \<Rightarrow> Some (res[i := s]))
      else None)"

text \<open>\<open>for (int i = 2; i <= k; i++) add_string(res[i - 1].fib, res[i - 2].fib, res[i].fib)\<close>\<close>

function fib_table :: "strbuf list \<Rightarrow> nat \<Rightarrow> int \<Rightarrow> strbuf list option" where
  "fib_table res i k =
     (if int i \<le> k then
        (if 2 \<le> i \<and> i < length res then
           (case add_string (res ! (i - 1)) (res ! (i - 2)) (res ! i) of None \<Rightarrow> None
            | Some s \<Rightarrow> fib_table (res[i := s]) (Suc i) k)
         else None)
      else Some res)"
  by pat_completeness auto
termination
  by (relation "measure (\<lambda>(res, i, k). nat (k + 1) - i)") auto

declare fib_table.simps [simp del]

text \<open>
  The part of \<open>fib_sequence_string\<close> that builds the table: the allocation of \<open>k + 1\<close>
  slots, the two seeds and the loop.
\<close>

definition build_table :: "int \<Rightarrow> (nat \<Rightarrow> byte) \<Rightarrow> strbuf list option" where
  "build_table k prior =
     do {
       let res = kmalloc_strbufs (nat (k + 1)) prior;
       res \<leftarrow> on_slot res 0 (\<lambda>s. strncpy s [48] 2);
       res \<leftarrow> on_slot res 1 (\<lambda>s. strncpy s [49] 2);
       fib_table res 2 k
     }"

text \<open>
  The whole of \<open>fib_sequence_string(k, buf)\<close>: what \<open>__copy_to_user\<close> hands to the caller
  (\<open>size + 1\<close> bytes of slot \<open>k\<close>), the returned length, and the table as the call leaves it.
\<close>

record fib_result =
  user_buf :: "byte list"
  ret :: int
  table :: "strbuf list"

definition fib_sequence_string :: "int \<Rightarrow> (nat \<Rightarrow> byte) \<Rightarrow> fib_result option" where
  "fib_sequence_string k prior =
     do {
       res \<leftarrow> build_table k prior;
       slot \<leftarrow> (if 0 \<le> k \<and> nat k < length res then Some (res ! nat k) else None);
       sz \<leftarrow> strlen slot;
       slot' \<leftarrow> reverse_string slot (word_of_nat sz - 1);
       out \<leftarrow> (if sz + 1 \<le> length slot' then Some (take (sz + 1) slot') else None);
       Some \<lparr>user_buf = out, ret = int sz, table = res[nat k := slot']\<rparr>
     }"

section \<open>The device interface\<close>

text \<open>\<open>struct file\<close>, of which the driver uses the position only.\<close>

record struct_file =
  f_pos :: "64 word"


text \<open>The \<open>switch (orig)\<close> of \<open>fib_device_lseek\<close>: the position the request asks for.\<close>

definition lseek_target :: "struct_file \<Rightarrow> 64 word \<Rightarrow> int \<Rightarrow> 64 word" where
  "lseek_target fl offset orig =
     (if orig = 0 then offset
      else if orig = 1 then f_pos fl + offset
      else if orig = 2 then MAX_LENGTH - offset
      else 0)"

definition fib_device_lseek :: "struct_file \<Rightarrow> 64 word \<Rightarrow> int \<Rightarrow> struct_file \<times> 64 word" where
  "fib_device_lseek fl offset orig =
     (let new_pos = lseek_target fl offset orig;
          new_pos = (if MAX_LENGTH <s new_pos then MAX_LENGTH else new_pos);
          new_pos = (if new_pos <s 0 then 0 else new_pos)
      in (fl\<lparr>f_pos := new_pos\<rparr>, new_pos))"

section \<open>Reference notions\<close>

text \<open>The Fibonacci numbers \<open>F(k)\<close> and the decimal numeral of a natural number.\<close>

fun fib :: "nat \<Rightarrow> nat" where
  "fib 0 = 0"
| "fib (Suc 0) = 1"
| "fib (Suc (Suc n)) = fib (Suc n) + fib n"

text \<open>\<open>F(k)\<close> reduced modulo \<open>2 ^ 64\<close>.\<close>

definition fib64 :: "nat \<Rightarrow> 64 word" where
  "fib64 n = word_of_nat (fib n)"

text \<open>The same numbers by iteration, for evaluating \<open>fib\<close> at a numeral.\<close>

fun fib_iter :: "nat \<Rightarrow> nat \<Rightarrow> nat \<Rightarrow> nat" where
  "fib_iter 0 a b = a"
| "fib_iter (Suc n) a b = fib_iter n b (a + b)"

fun digits_le :: "nat \<Rightarrow> nat list" where
  "digits_le n = (if n < 10 then [n] else n mod 10 # digits_le (n div 10))"

declare digits_le.simps [simp del]

definition digit_char :: "nat \<Rightarrow> byte" where
  "digit_char d = word_of_nat (48 + d)"

definition decimal :: "nat \<Rightarrow> byte list" where
  "decimal n = rev (map digit_char (digits_le n))"

definition ascii :: "string \<Rightarrow> byte list" where
  "ascii s = map of_char s"

section \<open>Notions for the decimal engine\<close>

text \<open>
  A digit character, the value \<open>c - '0'\<close> the adder reads from it, and the number that the
  digits \<open>s[i], \<dots>, s[n - 1]\<close> of a buffer contribute, least significant first.
\<close>

definition is_digit :: "byte \<Rightarrow> bool" where
  "is_digit c = (\<exists>d<10. c = digit_char d)"

definition dval :: "byte \<Rightarrow> int" where
  "dval c = sint c - 48"

definition num_range :: "byte list \<Rightarrow> nat \<Rightarrow> nat \<Rightarrow> int" where
  "num_range s i n = (\<Sum>j = i..<n. dval (s ! j) * 10 ^ j)"

text \<open>The buffer \<open>s\<close> holds the \<open>m\<close>-digit number \<open>v\<close> as a NUL-terminated string.\<close>

definition holds :: "byte list \<Rightarrow> nat \<Rightarrow> int \<Rightarrow> bool" where
  "holds s m v = (m < length s \<and> s ! m = 0 \<and> (\<forall>j<m. is_digit (s ! j)) \<and> num_range s 0 m = v)"

fun val_le :: "nat list \<Rightarrow> nat" where
  "val_le [] = 0"
| "val_le (d # ds) = d + 10 * val_le ds"

definition ndigits :: "nat \<Rightarrow> nat" where
  "ndigits v = length (digits_le v)"

text \<open>
  A table slot that holds \<open>v\<close> in zero-filled memory: the digits of \<open>v\<close>, least significant
  first, and NUL bytes up to the end of the slot. \<open>fib_entries K\<close> is the table of
  \<open>F(0), \<dots>, F(K)\<close>.
\<close>

definition pad_entry :: "nat \<Rightarrow> strbuf" where
  "pad_entry v = map digit_char (digits_le v) @ replicate (STRBUF_SIZE - ndigits v) 0"

definition fib_entries :: "nat \<Rightarrow> strbuf list" where
  "fib_entries K = map (\<lambda>j. pad_entry (fib j)) [0..<K + 1]"

text \<open>
  Two contents of the memory that \<open>kmalloc\<close> hands out: all zero, and all zero except for
  one byte \<open>'A'\<close> left at offset 257, which is \<open>res[2].fib[1]\<close>.
\<close>

definition zeroed :: "nat \<Rightarrow> byte" where
  "zeroed i = 0"

definition stale :: "nat \<Rightarrow> byte" where
  "stale i = (if i = 257 then 65 else 0)"

section \<open>Fast doubling computes the Fibonacci numbers modulo \<open>2 ^ 64\<close>\<close>

lemma fib_add: "fib (Suc (n + k)) = fib (Suc k) * fib (Suc n) + fib k * fib n"
  by (induction n rule: fib.induct) (auto simp: algebra_simps)

lemma fib_double_Suc: "fib (Suc (2 * n)) = fib n * fib n + fib (Suc n) * fib (Suc n)"
  using fib_add [of n n] by (simp add: mult_2)

lemma fib_double: "fib (2 * n) + fib n * fib n = 2 * fib n * fib (Suc n)"
proof (cases n)
  case 0
  then show ?thesis by simp
next
  case (Suc m)
  have "2 * Suc m = Suc (m + Suc m)" by simp
  then have "fib (2 * Suc m) = fib (Suc (m + Suc m))" by (rule arg_cong)
  also have "\<dots> = fib (Suc (Suc m)) * fib (Suc m) + fib (Suc m) * fib m"
    by (rule fib_add)
  finally show ?thesis
    using Suc by (simp add: algebra_simps)
qed

lemma fib64_double: "fib64 (2 * n) = fib64 n * (2 * fib64 (Suc n) - fib64 n)"
proof -
  have "fib64 (2 * n) + fib64 n * fib64 n = 2 * fib64 n * fib64 (Suc n)"
    unfolding fib64_def using fib_double [of n, THEN arg_cong, of "word_of_nat :: nat \<Rightarrow> 64 word"]
    by simp
  then have "fib64 (2 * n) = 2 * fib64 n * fib64 (Suc n) - fib64 n * fib64 n"
    by (simp add: algebra_simps)
  then show ?thesis by (simp add: algebra_simps)
qed

lemma fib64_double_Suc: "fib64 (Suc (2 * n)) = fib64 (Suc n) * fib64 (Suc n) + fib64 n * fib64 n"
  unfolding fib64_def by (simp add: fib_double_Suc)

lemma fib64_Suc_Suc: "fib64 (Suc (Suc n)) = fib64 n + fib64 (Suc n)"
  unfolding fib64_def by simp


lemma top_bit_test:
  assumes "c' < 64" "m < 2 ^ Suc c'"
  shows "(push_bit (64 - Suc c') (word_of_nat m :: 64 word) AND push_bit 63 1 \<noteq> 0) = (2 ^ c' \<le> m)"
proof -
  have "(push_bit (64 - Suc c') (word_of_nat m :: 64 word) AND push_bit 63 1 \<noteq> 0)
      = bit (push_bit (63 - c') (word_of_nat m :: 64 word)) 63"
    by (simp add: bit_iff_and_push_bit_not_eq_0)
  also have "\<dots> = bit (word_of_nat m :: 64 word) c'"
    using assms by (simp add: bit_push_bit_iff)
  also have "\<dots> = bit m c'"
    using assms by (simp add: bit_simps)
  also have "\<dots> = (2 ^ c' \<le> m)"
  proof -
    have "m div 2 ^ c' < 2"
      using assms by (simp add: less_mult_imp_div_less)
    moreover have "(m div 2 ^ c' = 0) = (m < 2 ^ c')"
      by (simp add: div_eq_0_iff)
    ultimately show ?thesis
      unfolding bit_nat_def by (cases "m < 2 ^ c'") (auto simp: odd_pos elim: oddE)
  qed
  finally show ?thesis .
qed

lemma shift_out:
  assumes "c' < 64"
  shows "push_bit 1 (push_bit (64 - Suc c') (word_of_nat (q * 2 ^ c' + r) :: 64 word))
         = push_bit (64 - c') (word_of_nat r)"
proof -
  have e: "64 - c' = Suc (64 - Suc c')" using assms by simp
  have p: "(2 :: 64 word) ^ (64 - Suc c') * 2 = 2 ^ (64 - c')"
    unfolding e by simp
  have z: "(2 :: 64 word) ^ c' * 2 ^ (64 - c') = 0"
    using assms by (simp add: power_add [symmetric])
  have "push_bit 1 (push_bit (64 - Suc c') (word_of_nat (q * 2 ^ c' + r) :: 64 word))
      = (word_of_nat q * 2 ^ c' + word_of_nat r) * ((2 :: 64 word) ^ (64 - Suc c') * 2)"
    unfolding push_bit_eq_mult by (simp add: mult.assoc)
  also have "\<dots> = word_of_nat q * ((2 :: 64 word) ^ c' * 2 ^ (64 - c')) + word_of_nat r * 2 ^ (64 - c')"
    unfolding p by (simp add: algebra_simps)
  also have "\<dots> = push_bit (64 - c') (word_of_nat r)"
    unfolding z push_bit_eq_mult by simp
  finally show ?thesis .
qed

lemma fib_doubling_correct:
  "c \<le> 64 \<Longrightarrow> m < 2 ^ c \<Longrightarrow>
   fib_doubling c (push_bit (64 - c) (word_of_nat m)) (fib64 n) (fib64 (Suc n)) = fib64 (n * 2 ^ c + m)"
proof (induction c arbitrary: n m)
  case 0
  then show ?case by simp
next
  case (Suc c)
  have c: "c < 64" "c \<le> 64" using Suc.prems by simp_all
  let ?k = "push_bit (64 - Suc c) (word_of_nat m :: 64 word)"
  show ?case
  proof (cases "2 ^ c \<le> m")
    case True
    define m' where "m' = m - 2 ^ c"
    have m: "m = 1 * 2 ^ c + m'" "m' < 2 ^ c"
      using True Suc.prems by (simp_all add: m'_def)
    have sh: "push_bit 1 ?k = push_bit (64 - c) (word_of_nat m')"
      by (subst m(1)) (rule shift_out [OF c(1)])
    have "fib_doubling (Suc c) ?k (fib64 n) (fib64 (Suc n))
        = fib_doubling c (push_bit (64 - c) (word_of_nat m')) (fib64 (Suc (2 * n))) (fib64 (Suc (Suc (2 * n))))"
    proof -
      have tt: "?k AND push_bit 63 1 \<noteq> 0"
        using True top_bit_test [OF c(1) Suc.prems(2)] by blast
      show ?thesis
        unfolding fib_doubling.simps Let_def fib64_double [symmetric] fib64_double_Suc [symmetric] sh
          fib64_Suc_Suc
        using tt by (simp only: if_True simp_thms)
    qed
    also have "\<dots> = fib64 (Suc (2 * n) * 2 ^ c + m')"
      by (rule Suc.IH [OF c(2) m(2)])
    also have "Suc (2 * n) * 2 ^ c + m' = n * 2 ^ Suc c + m"
      using True by (simp add: m'_def algebra_simps)
    finally show ?thesis .
  next
    case False
    then have m: "m = 0 * 2 ^ c + m" "m < 2 ^ c" by simp_all
    have sh: "push_bit 1 ?k = push_bit (64 - c) (word_of_nat m)"
      using shift_out [OF c(1), of 0 m] by simp
    have "fib_doubling (Suc c) ?k (fib64 n) (fib64 (Suc n))
        = fib_doubling c (push_bit (64 - c) (word_of_nat m)) (fib64 (2 * n)) (fib64 (Suc (2 * n)))"
    proof -
      have tt: "\<not> ?k AND push_bit 63 1 \<noteq> 0"
        using False top_bit_test [OF c(1) Suc.prems(2)] by blast
      show ?thesis
        unfolding fib_doubling.simps Let_def fib64_double [symmetric] fib64_double_Suc [symmetric] sh
        using tt by (simp only: if_False simp_thms)
    qed
    also have "\<dots> = fib64 (2 * n * 2 ^ c + m)"
      by (rule Suc.IH [OF c(2) m(2)])
    also have "2 * n * 2 ^ c + m = n * 2 ^ Suc c + m"
      by simp
    finally show ?thesis .
  qed
qed

lemma no_high_bits:
  fixes w :: "64 word"
  assumes "\<And>i. n \<le> i \<Longrightarrow> \<not> bit w i"
  shows "unat w < 2 ^ n"
proof -
  have "take_bit n w = w"
  proof (rule bit_eqI)
    fix i
    show "bit (take_bit n w) i = bit w i"
      using assms [of i] by (cases "i < n") (auto simp: bit_simps)
  qed
  then have "unat w = take_bit n (unat w)"
    by (metis unsigned_take_bit_eq)
  then show ?thesis
    by (metis take_bit_nat_less_exp)
qed

lemma clz_from_bound:
  fixes w :: "64 word"
  shows "(\<And>i. n \<le> i \<Longrightarrow> \<not> bit w i) \<Longrightarrow> unat w < 2 ^ (n - clz_from n w)"
proof (induction n)
  case 0
  then show ?case using no_high_bits [of 0 w] by simp
next
  case (Suc n)
  show ?case
  proof (cases "bit w n")
    case True
    then show ?thesis using no_high_bits [of "Suc n" w] Suc.prems by simp
  next
    case False
    have "\<And>i. n \<le> i \<Longrightarrow> \<not> bit w i"
      using False Suc.prems by (metis le_antisym not_less_eq_eq)
    from Suc.IH [OF this] show ?thesis using False by simp
  qed
qed

lemma clz_from_le: "clz_from n w \<le> n"
  by (induction n) auto

lemma clzll_bound: "unat w < 2 ^ (64 - clzll w)" "clzll w \<le> 64"
  unfolding clzll_def
  by (rule clz_from_bound) (auto dest: bit_imp_le_length simp: clz_from_le)

lemma fib_sequence_ge2:
  assumes "\<not> k <s 2"
  shows "fib_sequence k = fib64 (unat k)"
proof -
  have "fib_sequence k = fib_doubling (64 - clzll k) (push_bit (64 - (64 - clzll k)) (word_of_nat (unat k))) (fib64 0) (fib64 (Suc 0))"
    using assms clzll_bound(2) [of k] by (simp add: fib_sequence_def Let_def fib64_def)
  also have "\<dots> = fib64 (0 * 2 ^ (64 - clzll k) + unat k)"
    by (rule fib_doubling_correct) (simp_all add: clzll_bound)
  finally show ?thesis by simp
qed

lemma sint_small_cases:
  fixes k :: "64 word"
  assumes "0 \<le> sint k" "k <s 2"
  shows "k = 0 \<or> k = 1"
proof -
  have "sint k = 0 \<or> sint k = 1"
    using assms by (auto simp: word_sless_alt)
  then show ?thesis
  proof
    assume "sint k = 0"
    then have "sint k = sint (0 :: 64 word)" by simp
    then have "k = 0" by (rule signed_word_eqI)
    then show ?thesis by simp
  next
    assume "sint k = 1"
    then have "sint k = sint (1 :: 64 word)" by simp
    then have "k = 1" by (rule signed_word_eqI)
    then show ?thesis by simp
  qed
qed

lemma fib_sequence_small: "k <s 2 \<Longrightarrow> fib_sequence k = k"
  by (simp add: fib_sequence_def)

lemma fib_sequence_eq_fib64:
  assumes "0 \<le> sint k"
  shows "fib_sequence k = word_of_nat (fib (unat k))"
proof (cases "k <s 2")
  case True
  from sint_small_cases [OF assms True] show ?thesis
  proof
    assume "k = 0"
    then show ?thesis using fib_sequence_small [OF True] by simp
  next
    assume "k = 1"
    then show ?thesis using fib_sequence_small [OF True] by simp
  qed
next
  case False
  then show ?thesis
    using fib_sequence_ge2 by (simp add: fib64_def)
qed


lemma fib_sequence_exact:
  assumes "0 \<le> sint k" "fib (unat k) < 2 ^ 63"
  shows "sint (fib_sequence k) = int (fib (unat k))"
proof -
  have b: "int (fib (unat k)) < 2 ^ 63"
    using assms(2) by (metis of_nat_less_iff of_nat_numeral of_nat_power)
  have "sint (word_of_nat (fib (unat k)) :: 64 word) = signed_take_bit 63 (int (fib (unat k)))"
    by (simp add: signed_of_nat)
  also have "\<dots> = int (fib (unat k))"
    using b by (intro signed_take_bit_int_eq_self) simp_all
  finally show ?thesis
    by (simp add: fib_sequence_eq_fib64 [OF assms(1)])
qed

lemma fib_iter_numeral:
  "fib_iter (numeral v) a b = fib_iter (pred_numeral v) b (a + b)"
  by (simp only: numeral_eq_Suc fib_iter.simps)

lemma fib_iter_eq: "fib_iter n (fib k) (fib (Suc k)) = fib (n + k)"
proof (induction n arbitrary: k)
  case 0
  show ?case by simp
next
  case (Suc n)
  have "fib_iter (Suc n) (fib k) (fib (Suc k)) = fib_iter n (fib (Suc k)) (fib (Suc (Suc k)))"
    by (simp add: add.commute)
  also have "\<dots> = fib (n + Suc k)" by (rule Suc.IH)
  finally show ?case by simp
qed

lemma fib_by_iter: "fib (n + 3) = fib_iter n 2 3"
proof -
  have "fib 3 = 2" "fib (Suc 3) = 3"
    by (simp_all add: numeral_3_eq_3)
  then show ?thesis
    using fib_iter_eq [of n 3] by simp
qed

lemma fib_50: "fib 50 = 12586269025"
  using fib_by_iter [of 47] by (simp add: fib_iter_numeral)



text \<open>
  Claim C4. For every \<open>k \<ge> 0\<close> the fast-doubling engine \<open>fib_sequence\<close> returns \<open>F(k)\<close>
  reduced modulo \<open>2 ^ 64\<close>: every \<open>+\<close>, \<open>-\<close> and \<open>*\<close> of the loop wraps around. When
  \<open>F(k)\<close> fits the signed 64-bit result the value is \<open>F(k)\<close> itself; \<open>fib_sequence(50)\<close> is
  12586269025; and for \<open>k < 2\<close> the result is \<open>k\<close>, returned before the loop.
\<close>

theorem fib_sequence_fast_doubling:
  "(0 \<le> sint k \<longrightarrow> fib_sequence k = fib64 (unat k))
   \<and> (0 \<le> sint k \<and> fib (unat k) < 2 ^ 63 \<longrightarrow> sint (fib_sequence k) = int (fib (unat k)))
   \<and> (k <s 2 \<longrightarrow> fib_sequence k = k)
   \<and> fib_sequence 50 = 12586269025"
proof -
  have p: "0 \<le> sint (50 :: 64 word)"
    by simp
  have "fib_sequence 50 = word_of_nat (fib (unat (50 :: 64 word)))"
    using p by (rule fib_sequence_eq_fib64)
  also have "unat (50 :: 64 word) = 50"
    by simp
  finally have "fib_sequence 50 = word_of_nat (fib 50)" .
  then have d: "fib_sequence 50 = 12586269025"
    by (simp only: fib_50) simp
  have a: "fib_sequence k = fib64 (unat k)" if "0 \<le> sint k"
    using that by (simp add: fib_sequence_eq_fib64 fib64_def)
  have b: "sint (fib_sequence k) = int (fib (unat k))" if "0 \<le> sint k \<and> fib (unat k) < 2 ^ 63"
    using that by (intro fib_sequence_exact) simp_all
  have c: "fib_sequence k = k" if "k <s 2"
    using that by (rule fib_sequence_small)
  show ?thesis
    using a b c d by blast
qed

theorem fib_sequence_fast_doubling_witness:
  "0 \<le> sint (10 :: 64 word) \<and> fib (unat (10 :: 64 word)) < 2 ^ 63
   \<and> fib_sequence 10 = 55 \<and> sint (fib_sequence 10) = 55
   \<and> (1 :: 64 word) <s 2 \<and> fib_sequence 1 = 1"
proof -
  have f: "fib 10 = 55"
    using fib_by_iter [of 7] by (simp add: fib_iter_numeral)
  have u: "unat (10 :: 64 word) = 10"
    by simp
  show ?thesis
    using fib_sequence_fast_doubling [of 10] fib_sequence_fast_doubling [of 1]
    by (simp add: u f fib64_def word_sless_alt)
qed

section \<open>The formatter reverses the whole number\<close>

lemma xor_swap_bytes:
  fixes a b :: byte
  shows "(a XOR b) XOR ((a XOR b) XOR b) = b" "(a XOR b) XOR b = a"
  by (rule bit_eqI; auto simp: bit_simps)+

lemma xor_swap_update:
  fixes str :: "byte list"
  assumes "i \<noteq> j" "i < length str" "j < length str"
  shows "str[i := str ! i XOR str ! j, j := str ! i, i := (str ! i XOR str ! j) XOR str ! i]
         = str[i := str ! j, j := str ! i]"
proof -
  have "(str ! i XOR str ! j) XOR str ! i = str ! j"
    by (rule bit_eqI) (auto simp: bit_simps)
  then show ?thesis
    using assms by (intro nth_equalityI) (auto simp: nth_list_update)
qed

lemma w64_of_nat_less:
  "a < 2 ^ 64 \<Longrightarrow> b < 2 ^ 64 \<Longrightarrow> (word_of_nat a < (word_of_nat b :: 64 word)) = (a < b)"
  by (simp add: word_of_nat_less_iff take_bit_nat_eq_self)

lemma w64_unat_of_nat: "a < 2 ^ 64 \<Longrightarrow> unat (word_of_nat a :: 64 word) = a"
  by (simp add: unsigned_of_nat take_bit_nat_eq_self)

lemma reverse_loop_spec:
  "2 * i \<le> s + 1 \<Longrightarrow> s < length str \<Longrightarrow> s < 2 ^ 64 \<Longrightarrow>
   \<exists>r. reverse_loop str (word_of_nat s) i = Some r \<and> length r = length str \<and>
       (\<forall>j<length str. r ! j = (if i \<le> j \<and> j \<le> s - i then str ! (s - j) else str ! j))"
proof (induction "s + 1 - 2 * i" arbitrary: str i rule: less_induct)
  case less
  have i_le: "i \<le> s" using less.prems by linarith
  have d: "(word_of_nat s - word_of_nat i :: 64 word) = word_of_nat (s - i)"
    using i_le by simp
  have c: "(word_of_nat i < (word_of_nat s - word_of_nat i :: 64 word)) = (i < s - i)"
    unfolding d using less.prems i_le by (intro w64_of_nat_less) simp_all
  have u: "unat (word_of_nat s - word_of_nat i :: 64 word) = s - i"
    unfolding d using less.prems by (intro w64_unat_of_nat) simp
  show ?case
  proof (cases "i < s - i")
    case False
    then have "reverse_loop str (word_of_nat s) i = Some str"
      by (subst reverse_loop.simps) (simp add: c)
    moreover have "\<forall>j<length str. str ! j = (if i \<le> j \<and> j \<le> s - i then str ! (s - j) else str ! j)"
    proof (intro allI impI)
      fix j assume "j < length str"
      show "str ! j = (if i \<le> j \<and> j \<le> s - i then str ! (s - j) else str ! j)"
      proof (cases "i \<le> j \<and> j \<le> s - i")
        case True
        with False have "j = s - j" by linarith
        with True show ?thesis by simp
      next
        case False
        then show ?thesis by auto
      qed
    qed
    ultimately show ?thesis by simp
  next
    case True
    define j0 where "j0 = s - i"
    define s3 where "s3 = (str[i := str ! j0])[j0 := str ! i]"
    have ij: "i < j0" "j0 < length str" "i < length str"
      using True less.prems by (simp_all add: j0_def)
    have len3: "length s3 = length str" by (simp add: s3_def)
    have step: "reverse_loop str (word_of_nat s) i = reverse_loop s3 (word_of_nat s) (Suc i)"
      apply (subst reverse_loop.simps)
      using ij True
      apply (simp add: c u Let_def j0_def [symmetric] s3_def xor_swap_bytes xor_swap_update)
      done
    have "s + 1 - 2 * Suc i < s + 1 - 2 * i" "2 * Suc i \<le> s + 1" "s < length s3"
      using True less.prems by (simp_all add: len3)
    from less.hyps [OF this \<open>s < 2 ^ 64\<close>]
    obtain r where r: "reverse_loop s3 (word_of_nat s) (Suc i) = Some r" "length r = length s3"
      "\<forall>j<length s3. r ! j = (if Suc i \<le> j \<and> j \<le> s - Suc i then s3 ! (s - j) else s3 ! j)"
      by blast
    have "\<forall>j<length str. r ! j = (if i \<le> j \<and> j \<le> s - i then str ! (s - j) else str ! j)"
    proof (intro allI impI)
      fix j assume j: "j < length str"
      then have rj: "r ! j = (if Suc i \<le> j \<and> j \<le> s - Suc i then s3 ! (s - j) else s3 ! j)"
        using r(3) len3 by simp
      consider "j < i" | "j = i" | "i < j \<and> j < j0" | "j = j0" | "j0 < j"
        by linarith
      then show "r ! j = (if i \<le> j \<and> j \<le> s - i then str ! (s - j) else str ! j)"
      proof cases
        case 1
        then have "\<not> (Suc i \<le> j \<and> j \<le> s - Suc i)" "\<not> (i \<le> j \<and> j \<le> s - i)" "j \<noteq> i" "j \<noteq> j0"
          using ij by linarith+
        then show ?thesis using rj ij j by (auto simp add: s3_def)
      next
        case 2
        then have "\<not> (Suc i \<le> j \<and> j \<le> s - Suc i)" "i \<le> j \<and> j \<le> s - i" "s - j = j0"
          using ij by (simp_all add: j0_def)
        then show ?thesis using rj ij j 2 by (auto simp add: s3_def)
      next
        case 3
        then have "Suc i \<le> j \<and> j \<le> s - Suc i" "i \<le> j \<and> j \<le> s - i"
          "s - j \<noteq> i" "s - j \<noteq> j0" "s - j < length str"
          using ij less.prems by (auto simp: j0_def)
        then show ?thesis using rj ij j by (auto simp add: s3_def)
      next
        case 4
        then have "\<not> (Suc i \<le> j \<and> j \<le> s - Suc i)" "i \<le> j \<and> j \<le> s - i" "s - j = i"
          using ij less.prems by (auto simp: j0_def)
        then show ?thesis using rj ij j 4 by (auto simp add: s3_def)
      next
        case 5
        then have "\<not> (Suc i \<le> j \<and> j \<le> s - Suc i)" "\<not> (i \<le> j \<and> j \<le> s - i)" "j \<noteq> i" "j \<noteq> j0"
          using ij by (auto simp: j0_def)
        then show ?thesis using rj ij j by (auto simp add: s3_def)
      qed
    qed
    with r step len3 show ?thesis by simp
  qed
qed

lemma reverse_string_rev:
  assumes "xs \<noteq> []" "length xs < 2 ^ 31"
  shows "reverse_string (xs @ rest) (word_of_nat (length xs) - 1) = Some (rev xs @ rest)"
proof -
  define n where "n = length xs"
  define s where "s = n - 1"
  have n: "0 < n" "n < 2 ^ 31" using assms by (simp_all add: n_def)
  have w: "(word_of_nat n - 1 :: 64 word) = word_of_nat s"
    using n by (simp add: s_def)
  have "2 * 0 \<le> s + 1" "s < n + length rest" "s < 2 ^ 64"
    using n by (simp_all add: s_def)
  then have "2 * 0 \<le> s + 1" "s < length (xs @ rest)" "s < 2 ^ 64"
    by (simp_all add: n_def)
  from reverse_loop_spec [OF this]
  obtain r where r: "reverse_loop (xs @ rest) (word_of_nat s) 0 = Some r"
    "length r = length (xs @ rest)"
    "\<forall>j<length (xs @ rest). r ! j = (if 0 \<le> j \<and> j \<le> s - 0 then (xs @ rest) ! (s - j) else (xs @ rest) ! j)"
    by blast
  have "r = rev xs @ rest"
  proof (rule nth_equalityI)
    show "length r = length (rev xs @ rest)" using r(2) by simp
    fix j assume j: "j < length r"
    then have rj: "r ! j = (if j \<le> s then (xs @ rest) ! (s - j) else (xs @ rest) ! j)"
      using r(2,3) by simp
    show "r ! j = (rev xs @ rest) ! j"
    proof (cases "j \<le> s")
      case True
      then have "j < n" "s - j < n" using n by (simp_all add: s_def)
      then show ?thesis
        using rj True by (simp add: nth_append rev_nth n_def [symmetric] s_def)
    next
      case False
      then have "\<not> j < n" using n by (simp add: s_def)
      then show ?thesis
        using rj False by (simp add: nth_append n_def [symmetric])
    qed
  qed
  with r(1) w show ?thesis
    by (simp add: reverse_string_def n_def)
qed

text \<open>
  Claim C5. The call \<open>reverse_string(buf, size - 1)\<close> on a buffer that holds \<open>size \<ge> 1\<close>
  digits reverses all of them and nothing else: the digit at position \<open>i\<close> ends up at
  position \<open>size - 1 - i\<close>, the most significant one included, and a single digit stays
  where it is. (The second argument of \<open>reverse_string\<close> is the index of the last
  character, so \<open>size - 1\<close> is the right argument for \<open>size\<close> characters.)
\<close>

theorem reverse_string_full_length:
  "xs \<noteq> [] \<Longrightarrow> length xs < 2 ^ 31 \<Longrightarrow>
   reverse_string (xs @ rest) (word_of_nat (length xs) - 1) = Some (rev xs @ rest)
   \<and> (\<forall>i<length xs. (rev xs @ rest) ! (length xs - 1 - i) = xs ! i)
   \<and> (length xs = 1 \<longrightarrow> rev xs @ rest = xs @ rest)"
proof -
  assume a: "xs \<noteq> []" "length xs < 2 ^ 31"
  have "(rev xs @ rest) ! (length xs - 1 - i) = xs ! i" if "i < length xs" for i
  proof -
    have l: "length xs - 1 - i < length xs"
      using that by linarith
    have e: "length xs - Suc (length xs - 1 - i) = i"
      using that by linarith
    have "(rev xs @ rest) ! (length xs - 1 - i) = rev xs ! (length xs - 1 - i)"
      using l by (simp add: nth_append)
    also have "\<dots> = xs ! i"
      using l by (simp only: rev_nth e)
    finally show ?thesis .
  qed
  moreover have "rev xs = xs" if "length xs = 1"
    using that by (cases xs) simp_all
  ultimately show ?thesis
    using reverse_string_rev [OF a] by simp
qed

theorem reverse_string_full_length_witness:
  "[51, 49] \<noteq> ([] :: byte list) \<and> length [51, 49 :: byte] < 2 ^ 31
   \<and> reverse_string [51, 49, 0, 7] (2 - 1) = Some [49, 51, 0, 7]"
  using reverse_string_full_length [of "[51, 49]" "[0, 7]"] by simp

section \<open>The adder is symmetric in its operands\<close>

lemma add_both_commute: "add_both x y nxt i n c = add_both y x nxt i n c"
proof (induction x y nxt i n c rule: add_both.induct)
  case (1 x y nxt i n carry)
  show ?case
    apply (subst add_both.simps)
    apply (subst (2) add_both.simps)
    using 1
    apply (auto split: option.splits simp: Let_def add.commute add.left_commute)
    done
qed

lemma add_rest_empty: "add_rest x nxt n n c = Some (nxt, c)"
  by (subst add_rest.simps) simp

text \<open>
  Claim C6. Exchanging the two operands of \<open>add_string\<close> does not change what is left in
  the output buffer: the branch taken for \<open>(y, x)\<close> runs the same loops over the same
  digits as the branch taken for \<open>(x, y)\<close>. This holds for every content of the three
  buffers, faults included.
\<close>

theorem add_string_commutative: "add_string x y nxt = add_string y x nxt"
proof (cases "strlen x")
  case None
  then show ?thesis
    by (cases "strlen y") (simp_all add: add_string_def)
next
  case sx: (Some m)
  show ?thesis
  proof (cases "strlen y")
    case None
    with sx show ?thesis
      by (simp add: add_string_def)
  next
    case sy: (Some n)
    consider "n < m" | "m < n" | "m = n"
      by linarith
    then show ?thesis
    proof cases
      case 1
      then show ?thesis
        using sx sy by (simp add: add_string_def add_both_commute [of x y] max.commute)
    next
      case 2
      then show ?thesis
        using sx sy by (simp add: add_string_def add_both_commute [of x y] max.commute)
    next
      case 3
      then show ?thesis
        using sx sy
        by (simp add: add_string_def add_both_commute [of x y] add_rest_empty case_prod_beta)
    qed
  qed
qed

section \<open>The adder on digit strings\<close>

lemma below_10_cases:
  "d < (10 :: nat) \<Longrightarrow> d = 0 \<or> d = 1 \<or> d = 2 \<or> d = 3 \<or> d = 4 \<or> d = 5 \<or> d = 6 \<or> d = 7 \<or> d = 8 \<or> d = 9"
  by presburger

lemma dval_digit_char: "d < 10 \<Longrightarrow> dval (digit_char d) = int d"
  by (drule below_10_cases) (auto simp: dval_def digit_char_def)

lemma digit_char_nonzero: "d < 10 \<Longrightarrow> digit_char d \<noteq> 0"
  by (drule below_10_cases) (auto simp: digit_char_def)

lemma is_digit_dval: "is_digit c \<Longrightarrow> 0 \<le> dval c \<and> dval c \<le> 9"
  by (auto simp: is_digit_def dval_digit_char)

lemma is_digit_nonzero: "is_digit c \<Longrightarrow> c \<noteq> 0"
  by (auto simp: is_digit_def digit_char_nonzero)

lemma digit_step:
  assumes "0 \<le> sm" "sm \<le> 19"
  shows "is_digit (word_of_int (48 + sm smod 10))"
    and "dval (word_of_int (48 + sm smod 10)) = sm mod 10"
    and "sm sdiv 10 = sm div 10"
    and "sm div 10 = 0 \<or> sm div 10 = 1"
proof -
  have m: "sm smod 10 = sm mod 10" and d: "sm sdiv 10 = sm div 10"
    using assms(1) by (simp_all add: signed_modulo_int_def signed_divide_int_def sgn_if)
  define e where "e = nat (sm mod 10)"
  have e: "e < 10" "sm mod 10 = int e"
    by (simp_all add: e_def)
  have w: "(word_of_int (48 + sm smod 10) :: byte) = digit_char e"
    by (simp add: m e(2) digit_char_def)
  show "is_digit (word_of_int (48 + sm smod 10))"
    unfolding w is_digit_def using e(1) by blast
  show "dval (word_of_int (48 + sm smod 10)) = sm mod 10"
    unfolding w using e by (simp add: dval_digit_char)
  show "sm sdiv 10 = sm div 10" by (rule d)
  show "sm div 10 = 0 \<or> sm div 10 = 1"
    using assms by linarith
qed

lemma num_range_step: "i < n \<Longrightarrow> num_range s i n = dval (s ! i) * 10 ^ i + num_range s (Suc i) n"
  by (simp add: num_range_def sum.atLeast_Suc_lessThan)

lemma num_range_empty: "num_range s n n = 0"
  by (simp add: num_range_def)

lemma num_range_cong: "(\<And>j. i \<le> j \<Longrightarrow> j < n \<Longrightarrow> s ! j = t ! j) \<Longrightarrow> num_range s i n = num_range t i n"
  by (simp add: num_range_def)

lemma num_range_split: "i \<le> k \<Longrightarrow> k \<le> n \<Longrightarrow> num_range s i n = num_range s i k + num_range s k n"
  unfolding num_range_def
  by (rule sum.atLeastLessThan_concat [symmetric])

lemma add_both_spec:
  assumes "i \<le> n" "n \<le> length x" "n \<le> length y" "n \<le> length nxt"
    and "\<And>j. j < n \<Longrightarrow> is_digit (x ! j)" "\<And>j. j < n \<Longrightarrow> is_digit (y ! j)"
    and "c = 0 \<or> c = 1"
  shows "\<exists>nxt' c'. add_both x y nxt i n c = Some (nxt', c') \<and> length nxt' = length nxt
      \<and> (c' = 0 \<or> c' = 1)
      \<and> (\<forall>j. j < i \<or> n \<le> j \<longrightarrow> nxt' ! j = nxt ! j)
      \<and> (\<forall>j. i \<le> j \<and> j < n \<longrightarrow> is_digit (nxt' ! j))
      \<and> num_range nxt' i n + c' * 10 ^ n = num_range x i n + num_range y i n + c * 10 ^ i"
  using assms(1,4,7)
proof (induction "n - i" arbitrary: i nxt c)
  case 0
  then have "i = n" by simp
  then show ?case
    using "0.prems" by (subst add_both.simps) (auto simp: num_range_empty)
next
  case (Suc k)
  then have i: "i < n" "i < length x" "i < length y" "i < length nxt"
    using assms(2,3) by simp_all
  define sm where "sm = dval (x ! i) + dval (y ! i) + c"
  have sm: "0 \<le> sm" "sm \<le> 19"
    using is_digit_dval [OF assms(5) [OF i(1)]] is_digit_dval [OF assms(6) [OF i(1)]] Suc.prems(3)
    by (auto simp: sm_def)
  note ds = digit_step [OF sm]
  define nxt1 where "nxt1 = nxt[i := word_of_int (48 + sm smod 10)]"
  have step: "add_both x y nxt i n c = add_both x y nxt1 (Suc i) n (sm div 10)"
  proof -
    have e: "(sint (x ! i) - 48) + (sint (y ! i) - 48) + c = sm"
      by (simp add: sm_def dval_def)
    show ?thesis
      by (subst add_both.simps)
        (simp only: i load_def store_def if_True option.case Let_def e ds(3) nxt1_def)
  qed
  have "k = n - Suc i" "Suc i \<le> n" "n \<le> length nxt1"
    using Suc.hyps(2) i Suc.prems(2) by (simp_all add: nxt1_def)
  from Suc.hyps(1) [OF this ds(4)]
  obtain nxt' c' where r: "add_both x y nxt1 (Suc i) n (sm div 10) = Some (nxt', c')"
    "length nxt' = length nxt1" "c' = 0 \<or> c' = 1"
    "\<forall>j. j < Suc i \<or> n \<le> j \<longrightarrow> nxt' ! j = nxt1 ! j"
    "\<forall>j. Suc i \<le> j \<and> j < n \<longrightarrow> is_digit (nxt' ! j)"
    "num_range nxt' (Suc i) n + c' * 10 ^ n
       = num_range x (Suc i) n + num_range y (Suc i) n + (sm div 10) * 10 ^ Suc i"
    by blast
  have at_i: "nxt' ! i = word_of_int (48 + sm smod 10)"
    using r(4) i by (simp add: nxt1_def)
  have keep: "\<forall>j. j < i \<or> n \<le> j \<longrightarrow> nxt' ! j = nxt ! j"
    using r(4) i by (auto simp: nxt1_def)
  have digs: "\<forall>j. i \<le> j \<and> j < n \<longrightarrow> is_digit (nxt' ! j)"
  proof (intro allI impI)
    fix j assume "i \<le> j \<and> j < n"
    then consider "j = i" | "Suc i \<le> j \<and> j < n" by linarith
    then show "is_digit (nxt' ! j)"
      using at_i ds(1) r(5) by cases simp_all
  qed
  define lo hi where "lo = sm mod 10" and "hi = sm div 10"
  have smeq: "sm = lo + 10 * hi"
    by (simp add: lo_def hi_def)
  have "num_range nxt' i n + c' * 10 ^ n
      = dval (nxt' ! i) * 10 ^ i + (num_range nxt' (Suc i) n + c' * 10 ^ n)"
    using i(1) by (simp add: num_range_step)
  also have "\<dots> = lo * 10 ^ i
      + (num_range x (Suc i) n + num_range y (Suc i) n + hi * 10 ^ Suc i)"
    by (simp only: r(6) at_i ds(2) lo_def hi_def)
  also have "\<dots> = num_range x (Suc i) n + num_range y (Suc i) n + (lo + 10 * hi) * 10 ^ i"
    by (simp add: algebra_simps)
  also have "\<dots> = num_range x (Suc i) n + num_range y (Suc i) n
      + (dval (x ! i) + dval (y ! i) + c) * 10 ^ i"
    by (simp only: smeq [symmetric] sm_def)
  also have "\<dots> = num_range x i n + num_range y i n + c * 10 ^ i"
    using i(1) by (simp add: num_range_step [of i n] algebra_simps)
  finally have total: "num_range nxt' i n + c' * 10 ^ n = num_range x i n + num_range y i n + c * 10 ^ i" .
  show ?case
    using step r(1,2,3) keep digs total by (simp add: nxt1_def)
qed

lemma add_rest_spec:
  assumes "i \<le> n" "n \<le> length x" "n \<le> length nxt"
    and "\<And>j. j < n \<Longrightarrow> is_digit (x ! j)"
    and "c = 0 \<or> c = 1"
  shows "\<exists>nxt' c'. add_rest x nxt i n c = Some (nxt', c') \<and> length nxt' = length nxt
      \<and> (c' = 0 \<or> c' = 1)
      \<and> (\<forall>j. j < i \<or> n \<le> j \<longrightarrow> nxt' ! j = nxt ! j)
      \<and> (\<forall>j. i \<le> j \<and> j < n \<longrightarrow> is_digit (nxt' ! j))
      \<and> num_range nxt' i n + c' * 10 ^ n = num_range x i n + c * 10 ^ i"
  using assms(1,3,5)
proof (induction "n - i" arbitrary: i nxt c)
  case 0
  then have "i = n" by simp
  then show ?case
    using "0.prems" by (subst add_rest.simps) (auto simp: num_range_empty)
next
  case (Suc k)
  then have i: "i < n" "i < length x" "i < length nxt"
    using assms(2) by simp_all
  define sm where "sm = dval (x ! i) + c"
  have sm: "0 \<le> sm" "sm \<le> 19"
    using is_digit_dval [OF assms(4) [OF i(1)]] Suc.prems(3)
    by (auto simp: sm_def)
  note ds = digit_step [OF sm]
  define nxt1 where "nxt1 = nxt[i := word_of_int (48 + sm smod 10)]"
  have step: "add_rest x nxt i n c = add_rest x nxt1 (Suc i) n (sm div 10)"
  proof -
    have e: "(sint (x ! i) - 48) + c = sm"
      by (simp add: sm_def dval_def)
    show ?thesis
      by (subst add_rest.simps)
        (simp only: i load_def store_def if_True option.case Let_def e ds(3) nxt1_def)
  qed
  have "k = n - Suc i" "Suc i \<le> n" "n \<le> length nxt1"
    using Suc.hyps(2) i Suc.prems(2) by (simp_all add: nxt1_def)
  from Suc.hyps(1) [OF this ds(4)]
  obtain nxt' c' where r: "add_rest x nxt1 (Suc i) n (sm div 10) = Some (nxt', c')"
    "length nxt' = length nxt1" "c' = 0 \<or> c' = 1"
    "\<forall>j. j < Suc i \<or> n \<le> j \<longrightarrow> nxt' ! j = nxt1 ! j"
    "\<forall>j. Suc i \<le> j \<and> j < n \<longrightarrow> is_digit (nxt' ! j)"
    "num_range nxt' (Suc i) n + c' * 10 ^ n
       = num_range x (Suc i) n + (sm div 10) * 10 ^ Suc i"
    by blast
  have at_i: "nxt' ! i = word_of_int (48 + sm smod 10)"
    using r(4) i by (simp add: nxt1_def)
  have keep: "\<forall>j. j < i \<or> n \<le> j \<longrightarrow> nxt' ! j = nxt ! j"
    using r(4) i by (auto simp: nxt1_def)
  have digs: "\<forall>j. i \<le> j \<and> j < n \<longrightarrow> is_digit (nxt' ! j)"
  proof (intro allI impI)
    fix j assume "i \<le> j \<and> j < n"
    then consider "j = i" | "Suc i \<le> j \<and> j < n" by linarith
    then show "is_digit (nxt' ! j)"
      using at_i ds(1) r(5) by cases simp_all
  qed
  define lo hi where "lo = sm mod 10" and "hi = sm div 10"
  have smeq: "sm = lo + 10 * hi"
    by (simp add: lo_def hi_def)
  have "num_range nxt' i n + c' * 10 ^ n
      = dval (nxt' ! i) * 10 ^ i + (num_range nxt' (Suc i) n + c' * 10 ^ n)"
    using i(1) by (simp add: num_range_step)
  also have "\<dots> = lo * 10 ^ i
      + (num_range x (Suc i) n + hi * 10 ^ Suc i)"
    by (simp only: r(6) at_i ds(2) lo_def hi_def)
  also have "\<dots> = num_range x (Suc i) n + (lo + 10 * hi) * 10 ^ i"
    by (simp add: algebra_simps)
  also have "\<dots> = num_range x (Suc i) n
      + (dval (x ! i) + c) * 10 ^ i"
    by (simp only: smeq [symmetric] sm_def)
  also have "\<dots> = num_range x i n + c * 10 ^ i"
    using i(1) by (simp add: num_range_step [of i n] algebra_simps)
  finally have total: "num_range nxt' i n + c' * 10 ^ n = num_range x i n + c * 10 ^ i" .
  show ?case
    using step r(1,2,3) keep digs total by (simp add: nxt1_def)
qed

lemma strlen_holds: "holds s m v \<Longrightarrow> strlen s = Some m"
proof -
  assume h: "holds s m v"
  have "takeWhile (\<lambda>c. c \<noteq> 0) s = take m s"
    using h by (intro takeWhile_eq_take_P_nth) (auto simp: holds_def is_digit_nonzero)
  then show ?thesis
    using h by (simp add: strlen_def holds_def)
qed

lemma num_range_bound:
  "(\<And>j. j < m \<Longrightarrow> is_digit (s ! j)) \<Longrightarrow> 0 \<le> num_range s 0 m \<and> num_range s 0 m < 10 ^ m"
proof (induction m)
  case 0
  show ?case by (simp add: num_range_def)
next
  case (Suc m)
  have d: "0 \<le> dval (s ! m)" "dval (s ! m) \<le> 9"
    using is_digit_dval [OF Suc.prems [of m]] by simp_all
  have ih: "0 \<le> num_range s 0 m" "num_range s 0 m < 10 ^ m"
    using Suc.IH Suc.prems by simp_all
  have e: "num_range s 0 (Suc m) = num_range s 0 m + dval (s ! m) * 10 ^ m"
    by (simp add: num_range_def)
  have "dval (s ! m) * 10 ^ m \<le> 9 * 10 ^ m"
    using d(2) by (intro mult_right_mono) simp_all
  moreover have "0 \<le> dval (s ! m) * 10 ^ m"
    using d(1) by simp
  ultimately have "num_range s 0 m + dval (s ! m) * 10 ^ m < 10 ^ m + 9 * 10 ^ m"
    "0 \<le> num_range s 0 m + dval (s ! m) * 10 ^ m"
    using ih by linarith+
  then show ?case
    unfolding e by simp
qed

lemma add_string_spec_ge:
  assumes x: "holds x m vx" and y: "holds y n vy" and nm: "n \<le> m" and len: "m + 1 < length nxt"
  shows "\<exists>nxt'. add_string x y nxt = Some nxt' \<and> length nxt' = length nxt
     \<and> (\<forall>j>m + 1. nxt' ! j = nxt ! j)
     \<and> nxt' ! (m + 1) = 0
     \<and> (\<forall>j<m. is_digit (nxt' ! j))
     \<and> (if vx + vy < 10 ^ m
         then nxt' ! m = nxt ! m \<and> num_range nxt' 0 m = vx + vy
         else nxt' ! m = 49 \<and> num_range nxt' 0 m + 10 ^ m = vx + vy)"
proof -
  have xm: "m < length x" "\<And>j. j < m \<Longrightarrow> is_digit (x ! j)" "num_range x 0 m = vx"
    using x by (simp_all add: holds_def)
  have yn: "n < length y" "\<And>j. j < n \<Longrightarrow> is_digit (y ! j)" "num_range y 0 n = vy"
    using y by (simp_all add: holds_def)
  have "\<exists>n1 c1. add_both x y nxt 0 n 0 = Some (n1, c1) \<and> length n1 = length nxt
      \<and> (c1 = 0 \<or> c1 = 1)
      \<and> (\<forall>j. j < 0 \<or> n \<le> j \<longrightarrow> n1 ! j = nxt ! j)
      \<and> (\<forall>j. 0 \<le> j \<and> j < n \<longrightarrow> is_digit (n1 ! j))
      \<and> num_range n1 0 n + c1 * 10 ^ n = num_range x 0 n + num_range y 0 n + 0 * 10 ^ 0"
    using xm(1,2) yn(1,2) nm len by (intro add_both_spec) simp_all
  then obtain n1 c1 where b: "add_both x y nxt 0 n 0 = Some (n1, c1)" "length n1 = length nxt"
    "c1 = 0 \<or> c1 = 1" "\<And>j. n \<le> j \<Longrightarrow> n1 ! j = nxt ! j"
    "\<And>j. j < n \<Longrightarrow> is_digit (n1 ! j)"
    "num_range n1 0 n + c1 * 10 ^ n = num_range x 0 n + vy"
    using yn(3) by auto
  have "\<exists>n2 c2. add_rest x n1 n m c1 = Some (n2, c2) \<and> length n2 = length n1
      \<and> (c2 = 0 \<or> c2 = 1)
      \<and> (\<forall>j. j < n \<or> m \<le> j \<longrightarrow> n2 ! j = n1 ! j)
      \<and> (\<forall>j. n \<le> j \<and> j < m \<longrightarrow> is_digit (n2 ! j))
      \<and> num_range n2 n m + c2 * 10 ^ m = num_range x n m + c1 * 10 ^ n"
    using xm(1,2) nm len b(2,3) by (intro add_rest_spec) simp_all
  then obtain n2 c2 where r: "add_rest x n1 n m c1 = Some (n2, c2)" "length n2 = length nxt"
    "c2 = 0 \<or> c2 = 1" "\<And>j. j < n \<Longrightarrow> n2 ! j = n1 ! j" "\<And>j. m \<le> j \<Longrightarrow> n2 ! j = n1 ! j"
    "\<And>j. n \<le> j \<Longrightarrow> j < m \<Longrightarrow> is_digit (n2 ! j)"
    "num_range n2 n m + c2 * 10 ^ m = num_range x n m + c1 * 10 ^ n"
    using b(2) by auto
  have digs: "is_digit (n2 ! j)" if "j < m" for j
    using that r(4) [of j] r(6) [of j] b(5) [of j] by (cases "j < n") simp_all
  have "num_range n2 0 m = num_range n2 0 n + num_range n2 n m"
    using nm by (intro num_range_split) simp_all
  also have "num_range n2 0 n = num_range n1 0 n"
    using r(4) by (intro num_range_cong) simp
  finally have "num_range n2 0 m + c2 * 10 ^ m
      = (num_range n1 0 n + c1 * 10 ^ n) + (num_range n2 n m + c2 * 10 ^ m) - c1 * 10 ^ n"
    by simp
  also have "\<dots> = num_range x 0 n + num_range x n m + vy"
    unfolding b(6) r(7) by simp
  also have "num_range x 0 n + num_range x n m = vx"
    using nm xm(3) num_range_split [of 0 n m x] by simp
  finally have total: "num_range n2 0 m + c2 * 10 ^ m = vx + vy" .
  have bnd: "0 \<le> num_range n2 0 m" "num_range n2 0 m < 10 ^ m"
    using num_range_bound [of m n2] digs by simp_all
  have carry: "(c2 = 0) = (vx + vy < 10 ^ m)"
    using total bnd r(3) by auto
  define nxt' where "nxt' = (if c2 \<noteq> 0 then n2[m := 49] else n2)[Suc m := 0]"
  have res: "add_string x y nxt = Some nxt'"
    using strlen_holds [OF x] strlen_holds [OF y] nm b(1) r(1,2) len
    by (simp add: add_string_def store_def nxt'_def max_def)
  have keep: "num_range nxt' 0 m = num_range n2 0 m"
    by (intro num_range_cong) (simp add: nxt'_def)
  have "length nxt' = length nxt"
    by (simp add: nxt'_def r(2))
  moreover have "\<forall>j>m + 1. nxt' ! j = nxt ! j"
    using r(5) b(4) nm by (simp add: nxt'_def)
  moreover have "nxt' ! (m + 1) = 0"
    using len r(2) by (simp add: nxt'_def)
  moreover have "\<forall>j<m. is_digit (nxt' ! j)"
    using digs by (simp add: nxt'_def)
  moreover have "nxt' ! m = nxt ! m \<and> num_range nxt' 0 m = vx + vy" if "vx + vy < 10 ^ m"
  proof
    show "nxt' ! m = nxt ! m"
      using that carry r(5) [of m] b(4) [of m] nm by (simp add: nxt'_def)
    show "num_range nxt' 0 m = vx + vy"
      using that carry total keep by simp
  qed
  moreover have "nxt' ! m = 49 \<and> num_range nxt' 0 m + 10 ^ m = vx + vy" if "\<not> vx + vy < 10 ^ m"
  proof
    show "nxt' ! m = 49"
      using that carry r(2) len by (simp add: nxt'_def)
    show "num_range nxt' 0 m + 10 ^ m = vx + vy"
      using that carry total keep r(3) by simp
  qed
  ultimately show ?thesis
    using res by simp
qed

section \<open>Decimal numerals\<close>

lemma digits_le_nonempty: "digits_le v \<noteq> []"
  by (subst digits_le.simps) simp

lemma digits_le_lt10: "d \<in> set (digits_le v) \<Longrightarrow> d < 10"
proof (induction v rule: digits_le.induct)
  case (1 n)
  then show ?case
    by (subst (asm) (2) digits_le.simps) (auto split: if_splits)
qed

lemma val_digits_le: "val_le (digits_le v) = v"
proof (induction v rule: digits_le.induct)
  case (1 n)
  then show ?case
    by (subst digits_le.simps) auto
qed

lemma digits_le_upper: "v < 10 ^ length (digits_le v)"
proof (induction v rule: digits_le.induct)
  case (1 n)
  show ?case
  proof (cases "n < 10")
    case True
    then show ?thesis by (subst digits_le.simps) simp
  next
    case False
    with 1 have "n div 10 < 10 ^ length (digits_le (n div 10))" by simp
    then have "n < 10 * 10 ^ length (digits_le (n div 10))" by linarith
    with False show ?thesis by (subst digits_le.simps) simp
  qed
qed

lemma digits_le_lower: "length (digits_le v) = 1 \<or> 10 ^ (length (digits_le v) - 1) \<le> v"
proof (induction v rule: digits_le.induct)
  case (1 n)
  show ?case
  proof (cases "n < 10")
    case True
    then show ?thesis by (subst digits_le.simps) simp
  next
    case False
    let ?l = "length (digits_le (n div 10))"
    have l: "length (digits_le n) = Suc ?l"
      using False by (subst digits_le.simps) simp
    from 1 False have "?l = 1 \<or> 10 ^ (?l - 1) \<le> n div 10" by simp
    then have "10 ^ ?l \<le> n"
    proof
      assume "?l = 1"
      with False show ?thesis by simp
    next
      assume a: "10 ^ (?l - 1) \<le> n div 10"
      have "0 < ?l" using digits_le_nonempty by simp
      then have "(10::nat) ^ ?l = 10 * 10 ^ (?l - 1)"
        by (cases ?l) simp_all
      with a show ?thesis by linarith
    qed
    then show ?thesis by (simp add: l)
  qed
qed

lemma digits_unique:
  "ds \<noteq> [] \<Longrightarrow> (\<forall>d\<in>set ds. d < 10) \<Longrightarrow> length ds = 1 \<or> 10 ^ (length ds - 1) \<le> val_le ds
   \<Longrightarrow> digits_le (val_le ds) = ds"
proof (induction ds)
  case Nil
  then show ?case by simp
next
  case (Cons d ds)
  have d: "d < 10" using Cons.prems(2) by simp
  show ?case
  proof (cases "ds = []")
    case True
    with d show ?thesis by (subst digits_le.simps) simp
  next
    case False
    then have l: "0 < length ds" by simp
    then have p: "(10::nat) ^ length ds = 10 * 10 ^ (length ds - 1)"
      by (cases "length ds") simp_all
    have big: "10 ^ length ds \<le> d + 10 * val_le ds"
      using Cons.prems(3) False by simp
    then have lower: "10 ^ (length ds - 1) \<le> val_le ds"
      using d unfolding p by linarith
    have "10 \<le> d + 10 * val_le ds"
    proof -
      have "1 \<le> length ds" using l by linarith
      then have "(10::nat) ^ 1 \<le> 10 ^ length ds"
        by (intro power_increasing) simp_all
      with big show ?thesis by simp
    qed
    then have "digits_le (d + 10 * val_le ds)
        = (d + 10 * val_le ds) mod 10 # digits_le ((d + 10 * val_le ds) div 10)"
      by (subst digits_le.simps) simp
    also have "(d + 10 * val_le ds) mod 10 = d" using d by simp
    also have "(d + 10 * val_le ds) div 10 = val_le ds" using d by simp
    also have "digits_le (val_le ds) = ds"
      using Cons.IH [OF False] Cons.prems(2) lower by simp
    finally show ?thesis by simp
  qed
qed

lemma val_le_bound: "(\<forall>d\<in>set ds. d < 10) \<Longrightarrow> val_le ds < 10 ^ length ds"
  by (induction ds) auto

lemma ndigits_le: "0 < n \<Longrightarrow> v < 10 ^ n \<Longrightarrow> ndigits v \<le> n"
proof -
  assume n: "0 < n" and v: "v < 10 ^ n"
  from digits_le_lower [of v] show ?thesis
  proof
    assume "length (digits_le v) = 1"
    with n show ?thesis by (simp add: ndigits_def)
  next
    assume "10 ^ (length (digits_le v) - 1) \<le> v"
    with v have "(10::nat) ^ (length (digits_le v) - 1) < 10 ^ n" by linarith
    then have "length (digits_le v) - 1 < n"
      by (simp add: power_strict_increasing_iff)
    then show ?thesis by (simp add: ndigits_def)
  qed
qed

lemma num_range_Cons: "num_range (c # s) 0 (Suc n) = dval c + 10 * num_range s 0 n"
proof -
  have "num_range (c # s) 0 (Suc n) = dval c + (\<Sum>j = 0..<n. dval (s ! j) * 10 ^ Suc j)"
    unfolding num_range_def by (subst sum.atLeast0_lessThan_Suc_shift) simp
  also have "(\<Sum>j = 0..<n. dval (s ! j) * 10 ^ Suc j) = 10 * num_range s 0 n"
    unfolding num_range_def by (simp add: sum_distrib_left mult.assoc mult.left_commute)
  finally show ?thesis .
qed

lemma num_range_digits:
  "(\<forall>d\<in>set ds. d < 10) \<Longrightarrow> num_range (map digit_char ds @ rest) 0 (length ds) = int (val_le ds)"
proof (induction ds)
  case Nil
  show ?case by (simp add: num_range_empty)
next
  case (Cons d ds)
  then show ?case
    by (simp add: num_range_Cons dval_digit_char)
qed

lemma length_pad_entry: "ndigits v \<le> STRBUF_SIZE \<Longrightarrow> length (pad_entry v) = STRBUF_SIZE"
  by (simp add: pad_entry_def ndigits_def)

lemma pad_entry_holds:
  assumes "ndigits v < STRBUF_SIZE"
  shows "holds (pad_entry v) (ndigits v) (int v)"
proof -
  let ?ds = "digits_le v"
  have "ndigits v < length (pad_entry v)"
    using assms by (simp add: pad_entry_def ndigits_def)
  moreover have "pad_entry v ! ndigits v = 0"
    using assms by (simp add: pad_entry_def ndigits_def nth_append)
  moreover have "is_digit (pad_entry v ! j)" if "j < ndigits v" for j
  proof -
    have "?ds ! j < 10"
      using that digits_le_lt10 [of "?ds ! j" v] by (simp add: ndigits_def)
    then show ?thesis
      using that by (auto simp: pad_entry_def ndigits_def nth_append is_digit_def)
  qed
  moreover have "num_range (pad_entry v) 0 (ndigits v) = int v"
    unfolding pad_entry_def ndigits_def
    using num_range_digits [of ?ds] digits_le_lt10 [of _ v] by (simp add: val_digits_le)
  ultimately show ?thesis
    by (simp add: holds_def)
qed

lemma holds_unique:
  assumes h: "holds s m (int v)" and m: "0 < m" "m = 1 \<or> 10 ^ (m - 1) \<le> v"
    and z: "\<And>j. m \<le> j \<Longrightarrow> j < length s \<Longrightarrow> s ! j = 0" and l: "length s = STRBUF_SIZE"
  shows "s = pad_entry v \<and> ndigits v = m"
proof -
  define ds where "ds = map (\<lambda>c. nat (dval c)) (take m s)"
  have hm: "m < length s" "\<And>j. j < m \<Longrightarrow> is_digit (s ! j)" "num_range s 0 m = int v"
    using h by (simp_all add: holds_def)
  have len: "length ds = m"
    using hm(1) by (simp add: ds_def)
  have dj: "ds ! j < 10 \<and> s ! j = digit_char (ds ! j)" if jm: "j < m" for j
  proof -
    obtain d where "d < 10" "s ! j = digit_char d"
      using hm(2) [OF jm] by (auto simp: is_digit_def)
    then show ?thesis
      using jm hm(1) by (simp add: ds_def dval_digit_char)
  qed
  have lt: "\<forall>d\<in>set ds. d < 10"
    using dj len by (auto simp: in_set_conv_nth)
  have tk: "take m s = map digit_char ds"
    using dj len hm(1) by (intro nth_equalityI) simp_all
  have dr: "drop m s = replicate (STRBUF_SIZE - m) 0"
    using z l hm(1) by (intro nth_equalityI) simp_all
  have s: "s = map digit_char ds @ replicate (STRBUF_SIZE - m) 0"
    using append_take_drop_id [of m s] tk dr by simp
  have "int (val_le ds) = int v"
    using num_range_digits [OF lt, of "replicate (STRBUF_SIZE - m) 0"] hm(3) s len by simp
  then have v: "val_le ds = v" by simp
  have "digits_le (val_le ds) = ds"
    using m len lt v by (intro digits_unique) auto
  then have "digits_le v = ds" by (simp add: v)
  then show ?thesis
    using s len by (simp add: pad_entry_def ndigits_def)
qed

lemma ndigits_mono: "v \<le> w \<Longrightarrow> ndigits v \<le> ndigits w"
proof -
  assume "v \<le> w"
  then have "v < 10 ^ ndigits w"
    using digits_le_upper [of w] by (simp add: ndigits_def)
  moreover have "0 < ndigits w"
    using digits_le_nonempty [of w] by (simp add: ndigits_def)
  ultimately show ?thesis
    by (intro ndigits_le)
qed

lemma add_string_pad:
  assumes ba: "b \<le> a" and a: "ndigits a \<le> 126"
  shows "add_string (pad_entry a) (pad_entry b) (replicate STRBUF_SIZE 0) = Some (pad_entry (a + b))"
proof -
  define M where "M = ndigits a"
  define z :: strbuf where "z = replicate STRBUF_SIZE 0"
  have nb: "ndigits b \<le> M"
    unfolding M_def using ba by (rule ndigits_mono)
  have "0 < ndigits a"
    using digits_le_nonempty [of a] by (simp add: ndigits_def)
  then have M: "0 < M" "M \<le> 126"
    using a by (simp_all add: M_def)
  have ha: "holds (pad_entry a) M (int a)" and hb: "holds (pad_entry b) (ndigits b) (int b)"
    using a nb M by (simp_all add: pad_entry_holds STRBUF_SIZE_def M_def)
  have lz: "length z = STRBUF_SIZE" "M + 1 < length z"
    using M by (simp_all add: z_def STRBUF_SIZE_def)
  have zj: "z ! j = 0" if "j < STRBUF_SIZE" for j
    using that by (simp add: z_def)
  from add_string_spec_ge [OF ha hb nb lz(2)]
  obtain r where r: "add_string (pad_entry a) (pad_entry b) z = Some r" "length r = STRBUF_SIZE"
    "\<And>j. M + 1 < j \<Longrightarrow> r ! j = z ! j" "r ! (M + 1) = 0" "\<And>j. j < M \<Longrightarrow> is_digit (r ! j)"
    "int a + int b < 10 ^ M \<Longrightarrow> r ! M = z ! M \<and> num_range r 0 M = int a + int b"
    "\<not> int a + int b < 10 ^ M \<Longrightarrow> r ! M = 49 \<and> num_range r 0 M + 10 ^ M = int a + int b"
    unfolding lz(1) by (auto split: if_splits)
  have lowM: "M = 1 \<or> 10 ^ (M - 1) \<le> a + b"
    using digits_le_lower [of a] by (auto simp: ndigits_def M_def)
  have "r = pad_entry (a + b)"
  proof (cases "int a + int b < 10 ^ M")
    case True
    have "holds r M (int (a + b))"
      using r(2,4,5) r(6) [OF True] M zj [of M] by (simp add: holds_def STRBUF_SIZE_def)
    moreover have "r ! j = 0" if jj: "M \<le> j" "j < length r" for j
    proof -
      consider "j = M" | "j = M + 1" | "M + 1 < j" using jj by linarith
      then show ?thesis
        using r(3) [of j] r(4) r(6) [OF True] zj [of j] zj [of M] jj r(2) M
        by cases (simp_all add: STRBUF_SIZE_def)
    qed
    ultimately show ?thesis
      using holds_unique [of r M "a + b"] M(1) lowM r(2) by simp
  next
    case False
    have c: "10 ^ M \<le> a + b"
    proof -
      have "(10::int) ^ M \<le> int (a + b)" using False by simp
      then show ?thesis by (metis of_nat_le_iff of_nat_numeral of_nat_power)
    qed
    have d49: "is_digit 49" "dval 49 = 1"
      using dval_digit_char [of 1] by (auto simp: is_digit_def digit_char_def intro: exI [of _ 1])
    have "num_range r 0 (Suc M) = num_range r 0 M + dval (r ! M) * 10 ^ M"
      by (simp add: num_range_def)
    then have "num_range r 0 (Suc M) = int (a + b)"
      using r(7) [OF False] d49(2) by simp
    moreover have "is_digit (r ! j)" if "j < Suc M" for j
      using that r(5) [of j] r(7) [OF False] d49(1) by (cases "j = M") simp_all
    ultimately have "holds r (Suc M) (int (a + b))"
      using r(2,4) M by (simp add: holds_def STRBUF_SIZE_def)
    moreover have "r ! j = 0" if jj: "Suc M \<le> j" "j < length r" for j
    proof -
      consider "j = M + 1" | "M + 1 < j" using jj by linarith
      then show ?thesis
        using r(3) [of j] r(4) zj [of j] jj r(2) by cases simp_all
    qed
    ultimately show ?thesis
      using holds_unique [of r "Suc M" "a + b"] c r(2) by simp
  qed
  with r(1) show ?thesis by (simp add: z_def)
qed

section \<open>The table in zero-filled memory\<close>

lemma fib_mono: "i \<le> j \<Longrightarrow> fib i \<le> fib j"
proof (rule lift_Suc_mono_le [of fib])
  fix n show "fib n \<le> fib (Suc n)"
    by (cases n) simp_all
qed

lemma ndigits_fib_le:
  assumes "j \<le> K" "fib K < 10 ^ 126"
  shows "ndigits (fib j) \<le> 126"
proof -
  have "fib j < 10 ^ 126"
    using fib_mono [OF assms(1)] assms(2) by linarith
  then show ?thesis
    by (intro ndigits_le) simp_all
qed

lemma kmalloc_zero:
  "kmalloc_strbufs n (\<lambda>_. 0) = replicate n (replicate STRBUF_SIZE 0)"
  by (simp add: kmalloc_strbufs_def map_replicate_const)

lemma pad_entry_0: "pad_entry 0 = 48 # 0 # replicate 126 0"
proof -
  have "digits_le 0 = [0]" by (subst digits_le.simps) simp
  moreover have "replicate 127 (0::byte) = 0 # replicate 126 0"
    using replicate_Suc [of 126 "0::byte"] by simp
  ultimately show ?thesis
    by (simp add: pad_entry_def ndigits_def STRBUF_SIZE_def digit_char_def)
qed

lemma pad_entry_1: "pad_entry 1 = 49 # 0 # replicate 126 0"
proof -
  have "digits_le 1 = [1]" by (subst digits_le.simps) simp
  moreover have "replicate 127 (0::byte) = 0 # replicate 126 0"
    using replicate_Suc [of 126 "0::byte"] by simp
  ultimately show ?thesis
    by (simp add: pad_entry_def ndigits_def STRBUF_SIZE_def digit_char_def)
qed

lemma strncpy_seed:
  "strncpy (replicate STRBUF_SIZE 0) [c] 2 = Some (c # 0 # replicate 126 0)"
proof -
  have "replicate 128 (0::byte) = 0 # 0 # replicate 126 0"
    using replicate_Suc [of 127 "0::byte"] replicate_Suc [of 126 "0::byte"] by simp
  then show ?thesis
    by (simp add: strncpy_def STRBUF_SIZE_def)
qed

lemma fib_table_zero:
  assumes "2 \<le> i" "i \<le> K + 1" "length res = K + 1"
    and "\<And>j. j < i \<Longrightarrow> res ! j = pad_entry (fib j)"
    and "\<And>j. i \<le> j \<Longrightarrow> j \<le> K \<Longrightarrow> res ! j = replicate STRBUF_SIZE 0"
    and K: "fib K < 10 ^ 126"
  shows "fib_table res i (int K) = Some (map (\<lambda>j. pad_entry (fib j)) [0..<K + 1])"
  using assms(1-5)
proof (induction "K + 1 - i" arbitrary: i res)
  case 0
  then have i: "i = K + 1" by simp
  have "res = map (\<lambda>j. pad_entry (fib j)) [0..<K + 1]"
  proof (rule nth_equalityI)
    show "length res = length (map (\<lambda>j. pad_entry (fib j)) [0..<K + 1])"
      using "0.prems"(3) by simp
    fix j assume "j < length res"
    then show "res ! j = map (\<lambda>j. pad_entry (fib j)) [0..<K + 1] ! j"
      using "0.prems"(3,4) i by (simp del: upt_Suc)
  qed
  then show ?case
    using i by (subst fib_table.simps) simp
next
  case (Suc d)
  then have i: "i \<le> K" "i < length res" by simp_all
  obtain i2 where i2: "i = Suc (Suc i2)"
    using Suc.prems(1) by (metis Suc_le_D numeral_2_eq_2 Suc_le_mono)
  have f: "fib i = fib (i - 1) + fib (i - 2)"
    by (simp add: i2)
  have "add_string (res ! (i - 1)) (res ! (i - 2)) (res ! i)
      = add_string (pad_entry (fib (i - 1))) (pad_entry (fib (i - 2))) (replicate STRBUF_SIZE 0)"
    using Suc.prems(4) [of "i - 1"] Suc.prems(4) [of "i - 2"] Suc.prems(5) [of i] i Suc.prems(1)
    by simp
  also have "\<dots> = Some (pad_entry (fib i))"
    unfolding f using i K by (intro add_string_pad ndigits_fib_le [of _ K] fib_mono) simp_all
  finally have step: "fib_table res i (int K) = fib_table (res[i := pad_entry (fib i)]) (Suc i) (int K)"
    using i Suc.prems(1) by (subst fib_table.simps) simp
  have "fib_table (res[i := pad_entry (fib i)]) (Suc i) (int K)
      = Some (map (\<lambda>j. pad_entry (fib j)) [0..<K + 1])"
  proof (rule Suc.hyps(1))
    show "d = K + 1 - Suc i" using Suc.hyps(2) by simp
    show "2 \<le> Suc i" using Suc.prems(1) by simp
    show "Suc i \<le> K + 1" using i by simp
    show "length (res[i := pad_entry (fib i)]) = K + 1" using Suc.prems(3) by simp
    show "res[i := pad_entry (fib i)] ! j = pad_entry (fib j)" if "j < Suc i" for j
      using that Suc.prems(4) [of j] i by (cases "j = i") simp_all
    show "res[i := pad_entry (fib i)] ! j = replicate STRBUF_SIZE 0" if "Suc i \<le> j" "j \<le> K" for j
      using that Suc.prems(5) [of j] by simp
  qed
  with step show ?case by simp
qed

lemma build_table_zeroed:
  assumes "1 \<le> K" "fib K < 10 ^ 126"
  shows "build_table (int K) (\<lambda>_. 0) = Some (fib_entries K)"
proof -
  define z :: strbuf where "z = replicate STRBUF_SIZE 0"
  define res where "res = (replicate (K + 1) z)[0 := pad_entry 0, 1 := pad_entry 1]"
  have s0: "on_slot (replicate (K + 1) z) 0 (\<lambda>s. strncpy s [48] 2) = Some ((replicate (K + 1) z)[0 := pad_entry 0])"
    by (simp add: on_slot_def z_def strncpy_seed pad_entry_0)
  have s1: "on_slot ((replicate (K + 1) z)[0 := pad_entry 0]) 1 (\<lambda>s. strncpy s [49] 2) = Some res"
    using assms(1)
    by (simp add: on_slot_def z_def strncpy_seed pad_entry_1 [unfolded One_nat_def] res_def)
  have "fib_table res 2 (int K) = Some (map (\<lambda>j. pad_entry (fib j)) [0..<K + 1])"
  proof (rule fib_table_zero [OF _ _ _ _ _ assms(2)])
    show "(2::nat) \<le> 2" by simp
    show "2 \<le> K + 1" using assms(1) by simp
    show "length res = K + 1" by (simp add: res_def)
    show "res ! j = pad_entry (fib j)" if "j < 2" for j
    proof -
      from that consider "j = 0" | "j = 1" by linarith
      then show ?thesis
        using assms(1) by cases (simp_all add: res_def)
    qed
    show "res ! j = replicate STRBUF_SIZE 0" if "2 \<le> j" "j \<le> K" for j
      using that by (simp add: res_def z_def)
  qed
  then show ?thesis
    using s0 s1 by (simp add: build_table_def kmalloc_zero z_def nat_add_distrib fib_entries_def)
qed

lemma fib_sequence_string_zeroed:
  assumes "1 \<le> K" "fib K < 10 ^ 126"
  shows "fib_sequence_string (int K) (\<lambda>_. 0) =
    Some \<lparr>user_buf = decimal (fib K) @ [0], ret = int (length (decimal (fib K))),
          table = (fib_entries K)[K := decimal (fib K) @ replicate (STRBUF_SIZE - ndigits (fib K)) 0]\<rparr>"
proof -
  define xs where "xs = map digit_char (digits_le (fib K))"
  define m where "m = ndigits (fib K)"
  define rest :: strbuf where "rest = replicate (STRBUF_SIZE - m) 0"
  have m: "0 < m" "m \<le> 126" "length xs = m"
    using ndigits_fib_le [OF le_refl assms(2)] digits_le_nonempty [of "fib K"]
    by (simp_all add: m_def xs_def ndigits_def)
  have slot: "fib_entries K ! K = xs @ rest" "K < length (fib_entries K)"
    by (simp_all add: fib_entries_def pad_entry_def xs_def rest_def m_def del: upt_Suc)
  have sl: "strlen (xs @ rest) = Some m"
    using strlen_holds [OF pad_entry_holds [of "fib K"]] m(2)
    by (simp add: pad_entry_def xs_def rest_def m_def STRBUF_SIZE_def)
  have rv: "reverse_string (xs @ rest) (word_of_nat m - 1) = Some (rev xs @ rest)"
    using reverse_string_rev [of xs rest] m by auto
  have "STRBUF_SIZE - m = Suc (STRBUF_SIZE - Suc m)"
    using m(2) by (simp add: STRBUF_SIZE_def)
  then have "rest = 0 # replicate (STRBUF_SIZE - Suc m) 0"
    unfolding rest_def by (simp only: replicate_Suc)
  then have tk: "take (m + 1) (rev xs @ rest) = rev xs @ [0]" "m + 1 \<le> length (rev xs @ rest)"
    using m(3) by simp_all
  have d: "decimal (fib K) = rev xs" "length (decimal (fib K)) = m"
    using m(3) by (simp_all add: decimal_def xs_def rev_map)
  have g: "0 \<le> int K \<and> nat (int K) < length (fib_entries K)"
    using slot(2) by simp
  have "fib_sequence_string (int K) (\<lambda>_. 0) =
      Some \<lparr>user_buf = rev xs @ [0], ret = int m, table = (fib_entries K)[K := rev xs @ rest]\<rparr>"
    unfolding fib_sequence_string_def build_table_zeroed [OF assms]
    by (simp only: Option.bind.simps g if_True nat_int slot sl rv tk simp_thms of_nat_0_le_iff)
  then show ?thesis
    using m(3) by (simp add: d(1) rest_def m_def)
qed

lemma zeroed_eq: "zeroed = (\<lambda>_. 0)"
  by (rule ext) (simp add: zeroed_def)







section \<open>The seek operation clamps the 64-bit position\<close>

lemma lseek_machine_clamp:
  "sint (snd (fib_device_lseek fl offset orig)) =
     max 0 (min 500 (sint (lseek_target fl offset orig)))"
  by (simp add: fib_device_lseek_def Let_def MAX_LENGTH_def word_sless_alt)


section \<open>The decimal engine on the values of the specification\<close>

lemma fib_10: "fib 10 = 55"
  using fib_by_iter [of 7] by (simp add: fib_iter_numeral)

lemma fib_20: "fib 20 = 6765"
  using fib_by_iter [of 17] by (simp add: fib_iter_numeral)

lemma fib_100: "fib 100 = 354224848179261915075"
  using fib_by_iter [of 97] by (simp add: fib_iter_numeral)

lemma decimal_values:
  "decimal 1 = ascii ''1''"
  "decimal 55 = ascii ''55''"
  "decimal 6765 = ascii ''6765''"
  "decimal 354224848179261915075 = ascii ''354224848179261915075''"
  by (simp_all add: decimal_def digits_le.simps digit_char_def ascii_def)

text \<open>
  In zero-filled memory \<open>fib_sequence_string\<close> returns the values the specification lists
  for the indices 1, 2, 10, 20 and 100.
\<close>

lemma fib_sequence_string_zeroed_values:
  "map_option user_buf (fib_sequence_string 1 zeroed) = Some (ascii ''1'' @ [0])"
  "map_option user_buf (fib_sequence_string 2 zeroed) = Some (ascii ''1'' @ [0])"
  "map_option user_buf (fib_sequence_string 10 zeroed) = Some (ascii ''55'' @ [0])"
  "map_option user_buf (fib_sequence_string 20 zeroed) = Some (ascii ''6765'' @ [0])"
  "map_option user_buf (fib_sequence_string 100 zeroed)
     = Some (ascii ''354224848179261915075'' @ [0])"
  "map_option ret (fib_sequence_string 100 zeroed) = Some 21"
proof -
  have f2: "fib 2 = 1"
    by (simp add: numeral_2_eq_2)
  show "map_option user_buf (fib_sequence_string 1 zeroed) = Some (ascii ''1'' @ [0])"
    using fib_sequence_string_zeroed [of 1]
    by (simp add: zeroed_eq decimal_values(1) [unfolded One_nat_def])
  show "map_option user_buf (fib_sequence_string 2 zeroed) = Some (ascii ''1'' @ [0])"
    using fib_sequence_string_zeroed [of 2]
    by (simp add: zeroed_eq f2 decimal_values(1) [unfolded One_nat_def])
  show "map_option user_buf (fib_sequence_string 10 zeroed) = Some (ascii ''55'' @ [0])"
    using fib_sequence_string_zeroed [of 10] by (simp add: zeroed_eq fib_10 decimal_values)
  show "map_option user_buf (fib_sequence_string 20 zeroed) = Some (ascii ''6765'' @ [0])"
    using fib_sequence_string_zeroed [of 20] by (simp add: zeroed_eq fib_20 decimal_values)
  show "map_option user_buf (fib_sequence_string 100 zeroed)
      = Some (ascii ''354224848179261915075'' @ [0])"
    using fib_sequence_string_zeroed [of 100] by (simp add: zeroed_eq fib_100 decimal_values)
  show "map_option ret (fib_sequence_string 100 zeroed) = Some 21"
    using fib_sequence_string_zeroed [of 100]
    by (simp add: zeroed_eq fib_100 decimal_values ascii_def)
qed

section \<open>The terminator of a sum without carry\<close>

text \<open>
  Claim C2. \<open>add_string\<close> on \<open>"1"\<close> and \<open>"0"\<close> (lengths 1 and 1, sum 1, no final carry)
  writes the digit \<open>'1'\<close> to \<open>next[0]\<close> and the terminator to \<open>next[2]\<close>; \<open>next[1]\<close> keeps
  what it held before. With \<open>'A'\<close> there the result is the string \<open>"1A"\<close> of length 2, not
  of length \<open>max(1, 1) = 1\<close>; it has length 1 only when \<open>next[1]\<close> was already 0. With a
  final carry (\<open>"9"\<close> plus \<open>"1"\<close>) the digit \<open>'1'\<close> is appended and the length is 2, as the
  claim says.
\<close>

theorem add_string_unterminated:
  "add_string [49, 0] [48, 0] [7, 65, 9, 9] = Some [49, 65, 0, 9]
   \<and> strlen [49, 65, 0, 9] = Some 2
   \<and> add_string [49, 0] [48, 0] [7, 0, 9, 9] = Some [49, 0, 0, 9]
   \<and> strlen [49, 0, 0, 9] = Some 1
   \<and> add_string [57, 0] [49, 0] [7, 65, 9, 9] = Some [48, 49, 0, 9]
   \<and> strlen [48, 49, 0, 9] = Some 2"
  by code_simp

section \<open>The decimal engine in memory that is not zero\<close>

text \<open>
  Claim C1. With one stale byte \<open>'A'\<close> in the allocated table, at \<open>res[2].fib[1]\<close>,
  \<open>fib_sequence_string(2)\<close> hands out the three bytes \<open>"A1"\<close> and NUL and returns the length
  2, where the decimal numeral of \<open>F(2)\<close> is \<open>"1"\<close>, of length 1: the sum \<open>"1" + "0"\<close> leaves
  \<open>res[2].fib[1]\<close> unwritten and terminates the entry at index 2.
\<close>

theorem fib_sequence_string_stale_byte:
  "map_option user_buf (fib_sequence_string 2 stale) = Some [65, 49, 0]
   \<and> map_option ret (fib_sequence_string 2 stale) = Some 2
   \<and> decimal (fib 2) = [49]"
  by code_simp

text \<open>
  Claim C3. After the table is built for \<open>k = 2\<close> in the same memory, entries 0 and 1 are
  the seeds \<open>"0"\<close> and \<open>"1"\<close>, and entry 2 is the string \<open>"1A"\<close> of length 2: it is not
  the decimal sum \<open>"1"\<close> of entries 1 and 0.
\<close>

theorem build_table_stale_entry:
  "map_option (map (take 3)) (build_table 2 stale) = Some [[48, 0, 0], [49, 0, 0], [49, 65, 0]]
   \<and> map_option (map strlen) (build_table 2 stale) = Some [Some 1, Some 1, Some 2]"
  by code_simp

text \<open>
  Claim C10. Two calls of \<open>fib_sequence_string(2)\<close> give different buffers and different
  lengths when the memory they allocate differs in the one byte \<open>res[2].fib[1]\<close>:
  \<open>"1"\<close> with length 1 in zero-filled memory, \<open>"A1"\<close> with length 2 with the stale byte.
\<close>

theorem fib_sequence_string_depends_on_memory:
  "map_option user_buf (fib_sequence_string 2 zeroed) = Some [49, 0]
   \<and> map_option ret (fib_sequence_string 2 zeroed) = Some 1
   \<and> map_option user_buf (fib_sequence_string 2 stale) = Some [65, 49, 0]
   \<and> map_option ret (fib_sequence_string 2 stale) = Some 2"
  by code_simp

section \<open>The index 0\<close>

text \<open>
  Claim C8. For \<open>k = 0\<close> the allocation has one slot, and the table builder, which has no
  branch for \<open>k < 2\<close>, still seeds \<open>res[1]\<close>: that write lies outside the allocation,
  whatever the memory held. Both the table builder and the whole call fault there.
\<close>

theorem build_table_index_0_out_of_bounds:
  "length (kmalloc_strbufs (nat (0 + 1)) prior) = 1
   \<and> build_table 0 prior = None
   \<and> fib_sequence_string 0 prior = None"
  by (simp add: kmalloc_strbufs_def build_table_def fib_sequence_string_def on_slot_def
      strncpy_def STRBUF_SIZE_def)

section \<open>Indices above \<open>MAX_LENGTH\<close>\<close>




section \<open>The seek operation\<close>

lemma sint_add_no_overflow:
  fixes a b :: "64 word"
  assumes "- (2 ^ 63) \<le> sint a + sint b" "sint a + sint b < 2 ^ 63"
  shows "sint (a + b) = sint a + sint b"
proof -
  have "sint (a + b) = signed_take_bit 63 (sint a + sint b)"
    by (simp add: sint_word_ariths)
  also have "\<dots> = sint a + sint b"
    using assms by (intro signed_take_bit_int_eq_self) simp_all
  finally show ?thesis .
qed

lemma sint_from_end_no_overflow:
  fixes b :: "64 word"
  assumes "500 - sint b < 2 ^ 63"
  shows "sint (500 - b) = 500 - sint b"
proof -
  have u: "sint b < 2 ^ 63"
    using sint_lt [of b] by simp
  have "sint (500 - b) = signed_take_bit 63 (500 - sint b)"
    by (simp add: sint_word_diff)
  also have "\<dots> = 500 - sint b"
    using assms u by (intro signed_take_bit_int_eq_self) simp_all
  finally show ?thesis .
qed


text \<open>
  Claim C9, as the code has it. For every file position, offset and mode the position that
  \<open>fib_device_lseek\<close> returns and stores lies in \<open>[0, MAX_LENGTH]\<close>. Whenever the requested
  position (the offset in mode 0, the current position plus the offset in mode 1,
  \<open>MAX_LENGTH\<close> minus the offset in mode 2) is a signed 64-bit integer, the result is that
  position clamped: 0 below 0 and \<open>MAX_LENGTH = 500\<close> above it. Any other mode gives 0.
\<close>

theorem fib_device_lseek_clamps:
  "0 \<le> sint (snd (fib_device_lseek fl offset orig))
   \<and> sint (snd (fib_device_lseek fl offset orig)) \<le> 500
   \<and> f_pos (fst (fib_device_lseek fl offset orig)) = snd (fib_device_lseek fl offset orig)
   \<and> (orig = 0 \<longrightarrow>
        sint (snd (fib_device_lseek fl offset orig)) = max 0 (min 500 (sint offset)))
   \<and> (orig = 1 \<and> - (2 ^ 63) \<le> sint (f_pos fl) + sint offset
        \<and> sint (f_pos fl) + sint offset < 2 ^ 63 \<longrightarrow>
        sint (snd (fib_device_lseek fl offset orig))
          = max 0 (min 500 (sint (f_pos fl) + sint offset)))
   \<and> (orig = 2 \<and> 500 - sint offset < 2 ^ 63 \<longrightarrow>
        sint (snd (fib_device_lseek fl offset orig)) = max 0 (min 500 (500 - sint offset)))
   \<and> (orig \<noteq> 0 \<and> orig \<noteq> 1 \<and> orig \<noteq> 2 \<longrightarrow> snd (fib_device_lseek fl offset orig) = 0)"
proof -
  let ?r = "snd (fib_device_lseek fl offset orig)"
  note m = lseek_machine_clamp [of fl offset orig]
  have r: "0 \<le> sint ?r" "sint ?r \<le> 500"
    unfolding m by simp_all
  have p: "f_pos (fst (fib_device_lseek fl offset orig)) = ?r"
    by (simp add: fib_device_lseek_def Let_def)
  have c0: "sint ?r = max 0 (min 500 (sint offset))" if "orig = 0"
    unfolding m using that by (simp add: lseek_target_def)
  have c1: "sint ?r = max 0 (min 500 (sint (f_pos fl) + sint offset))"
    if "orig = 1 \<and> - (2 ^ 63) \<le> sint (f_pos fl) + sint offset
        \<and> sint (f_pos fl) + sint offset < 2 ^ 63"
    unfolding m using that by (simp add: lseek_target_def sint_add_no_overflow)
  have c2: "sint ?r = max 0 (min 500 (500 - sint offset))"
    if "orig = 2 \<and> 500 - sint offset < 2 ^ 63"
    unfolding m using that by (simp add: lseek_target_def MAX_LENGTH_def sint_from_end_no_overflow)
  have c3: "?r = 0" if "orig \<noteq> 0 \<and> orig \<noteq> 1 \<and> orig \<noteq> 2"
    using that by (simp add: fib_device_lseek_def lseek_target_def Let_def MAX_LENGTH_def)
  show ?thesis
    using r p c0 c1 c2 c3 by blast
qed

theorem fib_device_lseek_clamps_witness:
  "sint (snd (fib_device_lseek \<lparr>f_pos = 3\<rparr> 600 0)) = 500
   \<and> - (2 ^ 63) \<le> sint (f_pos \<lparr>f_pos = 3\<rparr>) + sint (7 :: 64 word)
   \<and> sint (f_pos \<lparr>f_pos = 3\<rparr>) + sint (7 :: 64 word) < 2 ^ 63
   \<and> sint (snd (fib_device_lseek \<lparr>f_pos = 3\<rparr> 7 1)) = 10
   \<and> 500 - sint (7 :: 64 word) < 2 ^ 63
   \<and> sint (snd (fib_device_lseek \<lparr>f_pos = 3\<rparr> 7 2)) = 493
   \<and> snd (fib_device_lseek \<lparr>f_pos = 3\<rparr> 7 5) = 0"
  using fib_device_lseek_clamps [of "\<lparr>f_pos = 3\<rparr>" 600 0]
    fib_device_lseek_clamps [of "\<lparr>f_pos = 3\<rparr>" 7 1]
    fib_device_lseek_clamps [of "\<lparr>f_pos = 3\<rparr>" 7 2]
    fib_device_lseek_clamps [of "\<lparr>f_pos = 3\<rparr>" 7 5]
  by simp


text \<open>
  Where the sum or the difference leaves the 64-bit range the clamp sees the wrapped value:
  from position 500, mode 1 with the largest offset asks for a position far above
  \<open>MAX_LENGTH\<close> and gets 0, and so does mode 2 with the smallest offset.
\<close>

theorem fib_device_lseek_wraps:
  "500 < sint (f_pos \<lparr>f_pos = 500\<rparr>) + sint (9223372036854775807 :: 64 word)
   \<and> snd (fib_device_lseek \<lparr>f_pos = 500\<rparr> 9223372036854775807 1) = 0
   \<and> 500 < 500 - sint (9223372036854775808 :: 64 word)
   \<and> snd (fib_device_lseek \<lparr>f_pos = 3\<rparr> 9223372036854775808 2) = 0"
  by (simp add: fib_device_lseek_def lseek_target_def Let_def MAX_LENGTH_def word_sless_alt)

end
